theory Spec2Isabelle
  imports Main "HOL-Library.Sublist"
begin

section \<open>The pattern catalogue post-processor\<close>

text \<open>
  A shallow embedding of \<^verbatim>\<open>postprocess_pattern_catalog.py\<close>: the line parser, the
  search index builder, the report generator and the driver.

  Text is a \<^typ>\<open>string\<close>; one \<^typ>\<open>char\<close> stands for one code point below 256.
  The only literal of the script outside that range is the arrow U+2192 in the bullet
  of a replaced operation, which is given by the three bytes of its UTF-8 encoding.
\<close>

subsection \<open>Python's string operations\<close>

text \<open>
  \<^verbatim>\<open>str.isspace\<close> on one code point below 256: TAB to CR, FS to US, the space,
  NEL and the no-break space. \<^verbatim>\<open>str.strip()\<close> removes such characters at both ends.
\<close>

definition isspace :: "char \<Rightarrow> bool" where
  "isspace c =
     (let n = (of_char c :: nat)
      in (9 \<le> n \<and> n \<le> 13) \<or> (28 \<le> n \<and> n \<le> 32) \<or> n = 133 \<or> n = 160)"

definition strip :: "string \<Rightarrow> string" where
  "strip s = rev (dropWhile isspace (rev (dropWhile isspace s)))"

text \<open>
  \<^verbatim>\<open>s.split(sep)\<close> for a separator that is not empty: the occurrences of \<open>sep\<close> are
  found from the left and do not overlap; \<open>acc\<close> is the field read so far. The script
  calls it with the literals \<^verbatim>\<open>" | "\<close>, \<^verbatim>\<open>"<"\<close> and \<^verbatim>\<open>"::"\<close> only (Python raises
  ValueError on an empty separator; here the text is then returned as one field).
\<close>

function split_from :: "string \<Rightarrow> string \<Rightarrow> string \<Rightarrow> string list" where
  "split_from sep acc [] = [acc]"
| "split_from sep acc (c # cs) =
     (if sep \<noteq> [] \<and> prefix sep (c # cs)
      then acc # split_from sep [] (drop (length sep) (c # cs))
      else split_from sep (acc @ [c]) cs)"
  by pat_completeness auto
termination
  by (relation "measure (\<lambda>(sep, acc, s). length s)") auto

definition split :: "string \<Rightarrow> string \<Rightarrow> string list" where
  "split s sep = split_from sep [] s"

subsection \<open>Modification records and the parser\<close>

text \<open>
  A modification is a Python dict with the key \<^verbatim>\<open>"type"\<close> and either \<^verbatim>\<open>"op"\<close> or
  \<^verbatim>\<open>"old_op"\<close> and \<^verbatim>\<open>"new_op"\<close>; a key that is absent is \<open>None\<close>.
\<close>

record modification =
  mtype :: string
  op :: "string option"
  old_op :: "string option"
  new_op :: "string option"

text \<open>
  \<^verbatim>\<open>defaultdict(list)\<close> and \<^verbatim>\<open>defaultdict(set)\<close> keep their keys in the order of first
  insertion. \<open>dd_update f dflt k d\<close> is \<^verbatim>\<open>d[k] = f(d[k])\<close>, where a missing key is first
  created with the default value at the end of the dict.
\<close>

type_synonym ('k, 'v) pydict = "('k \<times> 'v) list"

fun dd_update :: "('v \<Rightarrow> 'v) \<Rightarrow> 'v \<Rightarrow> 'k \<Rightarrow> ('k, 'v) pydict \<Rightarrow> ('k, 'v) pydict" where
  "dd_update f dflt k [] = [(k, f dflt)]"
| "dd_update f dflt k ((k', v) # d) =
     (if k' = k then (k', f v) # d else (k', v) # dd_update f dflt k d)"

definition dd_append :: "'k \<Rightarrow> 'v \<Rightarrow> ('k, 'v list) pydict \<Rightarrow> ('k, 'v list) pydict" where
  "dd_append k v d = dd_update (\<lambda>vs. vs @ [v]) [] k d"

type_synonym patterns = "(string, modification list) pydict"

text \<open>The body of the loop of \<^verbatim>\<open>parse_file\<close> on one line of the file.\<close>

definition parse_line :: "patterns \<Rightarrow> string \<Rightarrow> patterns" where
  "parse_line patterns raw =
     (let line = strip raw in
      if line = [] then patterns
      else
        let parts = split line '' | '' in
        if length parts < 3 then patterns
        else
          let pattern_name = (if strip (parts ! 0) \<noteq> [] then parts ! 0 else ''unknown'');
              modification_type = parts ! 1
          in if modification_type = ''notifyOperationReplaced (with op)'' \<and> length parts = 4
             then dd_append pattern_name
                    \<lparr>mtype = modification_type, op = None,
                     old_op = Some (parts ! 2), new_op = Some (parts ! 3)\<rparr> patterns
             else dd_append pattern_name
                    \<lparr>mtype = modification_type, op = Some (parts ! 2),
                     old_op = None, new_op = None\<rparr> patterns)"

definition parse_lines :: "string list \<Rightarrow> patterns" where
  "parse_lines ls = foldl parse_line [] ls"

subsection \<open>Errors and the world around the script\<close>

datatype error = KeyError string | ValueError string | FileNotFoundError string

text \<open>\<^verbatim>\<open>d[key]\<close> on a modification: KeyError when the key is absent.\<close>

definition getitem :: "string \<Rightarrow> string option \<Rightarrow> error + string" where
  "getitem key v = (case v of None \<Rightarrow> Inl (KeyError key) | Some x \<Rightarrow> Inr x)"

text \<open>
  A Python \<^verbatim>\<open>set\<close> of strings is a list without duplicates, in the order of insertion;
  the order in which Python iterates over a set is not specified and no statement below
  depends on it. \<^verbatim>\<open>list(s)\<close> is then the list itself.
\<close>

type_synonym 'a pyset = "'a list"

definition set_add :: "'a \<Rightarrow> 'a pyset \<Rightarrow> 'a pyset" where
  "set_add x s = (if x \<in> set s then s else s @ [x])"

definition list_of_set :: "'a pyset \<Rightarrow> 'a list" where
  "list_of_set s = s"

type_synonym search_index = "(string, string list) pydict"

text \<open>
  What a file holds after a write: the text of a report, or the search index that
  \<^verbatim>\<open>json.dump\<close> serialises (the value is kept, not its JSON text).
\<close>

datatype content = Text string | Json search_index

text \<open>
  The state the script reads and changes: the global \<^verbatim>\<open>unique_id\<close>, the date that
  \<^verbatim>\<open>datetime.now().strftime("%Y-%m-%d")\<close> returns, the lines of the files that can be
  read, and the logs of the directories made, the files written and the lines printed,
  oldest first. Creating a directory and writing a file are taken to succeed.
\<close>

record world =
  unique_id :: nat
  today :: string
  readable :: "string \<rightharpoonup> string list"
  made :: "string list"
  written :: "(string \<times> content) list"
  stdout :: "string list"

type_synonym 'a result = "(error + 'a) \<times> world"

definition print :: "string \<Rightarrow> world \<Rightarrow> world" where
  "print s w = w\<lparr>stdout := stdout w @ [s]\<rparr>"

definition makedirs :: "string \<Rightarrow> world \<Rightarrow> world" where
  "makedirs d w = w\<lparr>made := made w @ [d]\<rparr>"

definition write_file :: "string \<Rightarrow> content \<Rightarrow> world \<Rightarrow> world" where
  "write_file path c w = w\<lparr>written := written w @ [(path, c)]\<rparr>"

text \<open>\<^verbatim>\<open>os.path.join(a, b)\<close> of \<^verbatim>\<open>posixpath\<close>.\<close>

definition path_join :: "string \<Rightarrow> string \<Rightarrow> string" where
  "path_join a b =
     (if prefix ''/'' b then b
      else if a = [] \<or> suffix ''/'' a then a @ b
      else a @ ''/'' @ b)"

text \<open>\<^verbatim>\<open>str(n)\<close> for a natural number.\<close>

fun str_nat :: "nat \<Rightarrow> string" where
  "str_nat n =
     (if n < 10 then [char_of (48 + n)]
      else str_nat (n div 10) @ [char_of (48 + n mod 10)])"

declare str_nat.simps [simp del]

definition parse_file :: "string \<Rightarrow> world \<Rightarrow> error + patterns" where
  "parse_file filename w =
     (case readable w filename of
        None \<Rightarrow> Inl (FileNotFoundError filename)
      | Some ls \<Rightarrow> Inr (parse_lines ls))"

subsection \<open>File names and class names\<close>

definition is_word_char :: "char \<Rightarrow> bool" where
  \<comment> \<open>the class \<^verbatim>\<open>[a-zA-Z0-9_-]\<close>\<close>
  "is_word_char c =
     (let n = (of_char c :: nat)
      in (97 \<le> n \<and> n \<le> 122) \<or> (65 \<le> n \<and> n \<le> 90) \<or> (48 \<le> n \<and> n \<le> 57)
         \<or> c = CHR ''_'' \<or> c = CHR ''-'')"

definition re_sub_invalid :: "string \<Rightarrow> string" where
  \<comment> \<open>\<^verbatim>\<open>re.sub(r"[^a-zA-Z0-9_-]", "_", name)\<close>\<close>
  "re_sub_invalid name = map (\<lambda>c. if is_word_char c then c else CHR ''_'') name"

definition lower_char :: "char \<Rightarrow> char" where
  "lower_char c =
     (let n = (of_char c :: nat)
      in if (65 \<le> n \<and> n \<le> 90) \<or> (192 \<le> n \<and> n \<le> 222 \<and> n \<noteq> 215)
         then char_of (n + 32) else c)"

definition lower :: "string \<Rightarrow> string" where
  "lower s = map lower_char s"

definition sanitize_filename :: "string \<Rightarrow> world \<Rightarrow> string \<times> world" where
  "sanitize_filename pattern_name w =
     (let name = hd (split pattern_name ''<'');
          name = last (split name ''::'');
          name = re_sub_invalid name @ ''_'' @ str_nat (unique_id w)
      in (lower name, w\<lparr>unique_id := unique_id w + 1\<rparr>))"

definition extract_class_name :: "string \<Rightarrow> string" where
  "extract_class_name pattern_name =
     (let name = hd (split pattern_name ''<'');
          name = last (split name ''::'')
      in name)"

subsection \<open>The search link\<close>

text \<open>
  \<^verbatim>\<open>urllib.parse.quote\<close> with its default safe set: letters, digits and the characters
  \<^verbatim>\<open>_.-~/\<close> stay; every other character is encoded in UTF-8 and each byte is written as
  \<^verbatim>\<open>%XX\<close> in upper-case hexadecimal.
\<close>

definition hexdigit :: "nat \<Rightarrow> char" where
  "hexdigit d = (if d < 10 then char_of (48 + d) else char_of (55 + d))"

definition percent :: "nat \<Rightarrow> string" where
  "percent b = [CHR ''%'', hexdigit (b div 16), hexdigit (b mod 16)]"

definition utf8 :: "char \<Rightarrow> nat list" where
  "utf8 c = (let n = (of_char c :: nat)
             in if n < 128 then [n] else [192 + n div 64, 128 + n mod 64])"

definition quote_safe :: "char \<Rightarrow> bool" where
  "quote_safe c =
     (let n = (of_char c :: nat)
      in (97 \<le> n \<and> n \<le> 122) \<or> (65 \<le> n \<and> n \<le> 90) \<or> (48 \<le> n \<and> n \<le> 57)
         \<or> c \<in> set ''_.-~/'')"

definition quote :: "string \<Rightarrow> string" where
  "quote s = concat (map (\<lambda>c. if quote_safe c then [c] else concat (map percent (utf8 c))) s)"

subsection \<open>The report of one pattern\<close>

text \<open>The first loop of \<^verbatim>\<open>create_hugo_post\<close>: the records are put into buckets by type.\<close>

fun group_operations ::
  "modification list \<Rightarrow> (string, modification list) pydict
   \<Rightarrow> error + (string, modification list) pydict" where
  "group_operations [] by_type = Inr by_type"
| "group_operations (r # rs) by_type =
     (if mtype r = ''notifyOperationReplaced (with op)''
      then group_operations rs (dd_append ''Operations replaced'' r by_type)
      else if mtype r = ''notifyOperationInserted''
      then group_operations rs (dd_append ''Operations inserted'' r by_type)
      else if mtype r = ''notifyOperationErased''
      then group_operations rs (dd_append ''Operations erased'' r by_type)
      else if mtype r = ''notifyOperationModified''
      then group_operations rs (dd_append ''Operations modified'' r by_type)
      else if mtype r = ''notifyOperationReplaced (with values)''
      then group_operations rs (dd_append ''Operations replaced with values'' r by_type)
      else Inl (ValueError (''unknown modification type: '' @ mtype r)))"

definition arrow :: string where
  \<comment> \<open>U+2192 in UTF-8\<close>
  "arrow = [CHR 0xE2, CHR 0x86, CHR 0x92]"

text \<open>The bullet of one record in the section \<open>op_type\<close>.\<close>

definition render_op :: "string \<Rightarrow> modification \<Rightarrow> error + string" where
  "render_op op_type r =
     (if op_type = ''Operations replaced''
      then (case getitem ''old_op'' (old_op r) of
              Inl e \<Rightarrow> Inl e
            | Inr old \<Rightarrow>
                (case getitem ''new_op'' (new_op r) of
                   Inl e \<Rightarrow> Inl e
                 | Inr new \<Rightarrow> Inr (''- `'' @ old @ ''` '' @ arrow @ '' `'' @ new @ ''`\<newline>'')))
      else (case getitem ''op'' (op r) of
              Inl e \<Rightarrow> Inl e
            | Inr name \<Rightarrow> Inr (''- `'' @ name @ ''`\<newline>'')))"

fun render_ops :: "string \<Rightarrow> modification list \<Rightarrow> string \<Rightarrow> error + string" where
  "render_ops op_type [] content = Inr content"
| "render_ops op_type (r # rs) content =
     (case render_op op_type r of
        Inl e \<Rightarrow> Inl e
      | Inr line \<Rightarrow> render_ops op_type rs (content @ line))"

fun render_sections :: "(string, modification list) pydict \<Rightarrow> string \<Rightarrow> error + string" where
  "render_sections [] content = Inr content"
| "render_sections ((op_type, ops) # by_type) content =
     (case render_ops op_type ops (content @ ''### '' @ op_type @ ''\<newline>\<newline>'') of
        Inl e \<Rightarrow> Inl e
      | Inr content' \<Rightarrow> render_sections by_type (content' @ ''\<newline>''))"

definition github_url :: "string \<Rightarrow> string" where
  \<open>github_url class_name =
     ''https://github.com/search?q=repo%3Allvm%2Fllvm-project+''
     @ quote (''path:mlir "'' @ class_name @ ''"'') @ ''&type=code''\<close>

definition header :: "string \<Rightarrow> string \<Rightarrow> string \<Rightarrow> string" where
  \<open>header pattern_name date url =
     ''---\<newline>title: "'' @ pattern_name @ ''"\<newline>date: '' @ date @ ''\<newline>---\<newline>\<newline># `''
     @ pattern_name @ ''`\<newline>\<newline>[Search in LLVM Project]('' @ url
     @ '')\<newline>\<newline>## Operations Modified\<newline>\<newline>''\<close>

definition create_hugo_post :: "string \<Rightarrow> modification list \<Rightarrow> string \<Rightarrow> world \<Rightarrow> unit result" where
  "create_hugo_post pattern_name operations output_dir w =
     (let (filename, w1) = sanitize_filename pattern_name w;
          filepath = path_join output_dir (filename @ ''.md'');
          class_name = extract_class_name pattern_name
      in case group_operations operations [] of
           Inl e \<Rightarrow> (Inl e, w1)
         | Inr operations_by_type \<Rightarrow>
             (case render_sections operations_by_type
                     (header pattern_name (today w1) (github_url class_name)) of
                Inl e \<Rightarrow> (Inl e, w1)
              | Inr content \<Rightarrow>
                  (Inr (), print (''Generated: '' @ filepath)
                             (write_file filepath (Text content) (makedirs output_dir w1)))))"

fun posts_loop :: "patterns \<Rightarrow> string \<Rightarrow> world \<Rightarrow> unit result" where
  "posts_loop [] output_dir w = (Inr (), w)"
| "posts_loop ((pattern_name, operations) # ps) output_dir w =
     (case create_hugo_post pattern_name operations output_dir w of
        (Inl e, w') \<Rightarrow> (Inl e, w')
      | (Inr u, w') \<Rightarrow> posts_loop ps output_dir w')"

definition generate_posts :: "patterns \<Rightarrow> string \<Rightarrow> world \<Rightarrow> unit result" where
  "generate_posts patterns output_dir w =
     (case posts_loop patterns output_dir
             (print (''Found '' @ str_nat (length patterns) @ '' patterns'') w) of
        (Inl e, w') \<Rightarrow> (Inl e, w')
      | (Inr u, w') \<Rightarrow>
          (Inr (), print (''Generated '' @ str_nat (length patterns) @ '' blog posts in ''
                           @ output_dir) w'))"

subsection \<open>The search index and the driver\<close>

text \<open>The two nested loops of \<^verbatim>\<open>preprocess_data\<close> that fill the search index.\<close>

fun index_mods :: "string \<Rightarrow> modification list \<Rightarrow> search_index \<Rightarrow> error + search_index" where
  "index_mods pattern_name [] search_index = Inr search_index"
| "index_mods pattern_name (m # mods) search_index =
     (if mtype m = ''notifyOperationReplaced (with op)''
      then (case getitem ''old_op'' (old_op m) of
              Inl e \<Rightarrow> Inl e
            | Inr old \<Rightarrow>
                (case getitem ''new_op'' (new_op m) of
                   Inl e \<Rightarrow> Inl e
                 | Inr new \<Rightarrow>
                     index_mods pattern_name mods
                       (dd_update (set_add pattern_name) [] new
                          (dd_update (set_add pattern_name) [] old search_index))))
      else (case getitem ''op'' (op m) of
              Inl e \<Rightarrow> Inl e
            | Inr name \<Rightarrow>
                index_mods pattern_name mods
                  (dd_update (set_add pattern_name) [] name search_index)))"

fun index_patterns :: "patterns \<Rightarrow> search_index \<Rightarrow> error + search_index" where
  "index_patterns [] search_index = Inr search_index"
| "index_patterns ((pattern_name, mods) # ps) search_index =
     (case index_mods pattern_name mods search_index of
        Inl e \<Rightarrow> Inl e
      | Inr search_index' \<Rightarrow> index_patterns ps search_index')"

definition build_search_index :: "patterns \<Rightarrow> error + search_index" where
  "build_search_index patterns =
     (case index_patterns patterns [] of
        Inl e \<Rightarrow> Inl e
      | Inr search_index \<Rightarrow> Inr (map (\<lambda>(op_name, class_names_set).
                                        (op_name, list_of_set class_names_set)) search_index))"

definition preprocess_data ::
  "string \<Rightarrow> string \<Rightarrow> string \<Rightarrow> string \<Rightarrow> string \<Rightarrow> world \<Rightarrow> unit result" where
  "preprocess_data input_file output_dir class_pages_dir index_output_dir
       index_output_filename w =
     (let w1 = makedirs output_dir w
      in case parse_file input_file w1 of
           Inl e \<Rightarrow> (Inl e, w1)
         | Inr patterns \<Rightarrow>
             (case build_search_index patterns of
                Inl e \<Rightarrow> (Inl e, w1)
              | Inr search_index \<Rightarrow>
                  (case generate_posts patterns class_pages_dir
                          (write_file (path_join index_output_dir index_output_filename)
                             (Json search_index) w1) of
                     (Inl e, w2) \<Rightarrow> (Inl e, w2)
                   | (Inr u, w2) \<Rightarrow>
                       (Inr (),
                        print (''Class pages generated in '' @ [CHR 0x27] @ class_pages_dir
                               @ [CHR 0x27])
                          (print (''Preprocessing complete. Search index saved to ''
                                  @ [CHR 0x27] @ path_join output_dir index_output_filename
                                  @ [CHR 0x27]) w2)))))"

text \<open>The call of the main block: the keyword arguments take their default values.\<close>

definition main :: "string list \<Rightarrow> world \<Rightarrow> unit result" where
  "main argv w =
     (if length argv \<noteq> 2
      then (Inl (ValueError
                   ''Usage: postprocess_pattern_catalog.py path/to/pattern_catalog.txt''), w)
      else preprocess_data (argv ! 1) ''search_data'' ''website/content/patterns/''
             ''website/static/'' ''pattern_catalog_index.json'' w)"

subsection \<open>Notions used in the statements\<close>

text \<open>
  A fresh run: the counter is 0, nothing is written or printed yet, and the file
  \<^verbatim>\<open>catalog.txt\<close> holds the given lines.
\<close>

definition catalog_world :: "string list \<Rightarrow> world" where
  "catalog_world ls =
     \<lparr>unique_id = 0, today = ''2024-01-01'', readable = [''catalog.txt'' \<mapsto> ls],
      made = [], written = [], stdout = []\<rparr>"

definition argv_catalog :: "string list" where
  "argv_catalog = [''postprocess_pattern_catalog.py'', ''catalog.txt'']"

text \<open>
  The operation names that a record holds: \<^verbatim>\<open>old_op\<close> and \<^verbatim>\<open>new_op\<close> where the record
  has them, the single \<^verbatim>\<open>op\<close> where it has that.
\<close>

definition referenced_ops :: "modification \<Rightarrow> string set" where
  "referenced_ops m = set_option (old_op m) \<union> set_option (new_op m) \<union> set_option (op m)"

text \<open>
  The keys under which the loops of \<^verbatim>\<open>preprocess_data\<close> file a record: they look at the
  type of the record alone.
\<close>

definition indexed_ops :: "modification \<Rightarrow> string set" where
  "indexed_ops m =
     (if mtype m = ''notifyOperationReplaced (with op)''
      then set_option (old_op m) \<union> set_option (new_op m)
      else set_option (op m))"

text \<open>
  The two shapes of record that \<^verbatim>\<open>parse_file\<close> builds: \<^verbatim>\<open>op\<close> alone, or \<^verbatim>\<open>old_op\<close> and
  \<^verbatim>\<open>new_op\<close> with the type \<^verbatim>\<open>notifyOperationReplaced (with op)\<close>.
\<close>

definition parser_shaped :: "modification \<Rightarrow> bool" where
  "parser_shaped m =
     ((op m \<noteq> None \<and> old_op m = None \<and> new_op m = None)
      \<or> (mtype m = ''notifyOperationReplaced (with op)'' \<and> op m = None
          \<and> old_op m \<noteq> None \<and> new_op m \<noteq> None))"

text \<open>The pattern \<open>p\<close> is listed under the key \<open>k\<close> of an index.\<close>

definition listed :: "search_index \<Rightarrow> string \<Rightarrow> string \<Rightarrow> bool" where
  "listed idx k p = (case map_of idx k of None \<Rightarrow> False | Some ps \<Rightarrow> p \<in> set ps)"

text \<open>A well-formed index: no key occurs twice, and no list holds a name twice.\<close>

definition index_ok :: "search_index \<Rightarrow> bool" where
  "index_ok idx = (distinct (map fst idx) \<and> list_all (\<lambda>(k, ps). distinct ps) idx)"

text \<open>The five modification types of the input format.\<close>

definition recognized_types :: "string list" where
  "recognized_types =
     [''notifyOperationReplaced (with op)'', ''notifyOperationInserted'',
      ''notifyOperationErased'', ''notifyOperationModified'',
      ''notifyOperationReplaced (with values)'']"

text \<open>
  The label of the bucket that the chain of tests in \<^verbatim>\<open>create_hugo_post\<close> gives to a
  modification type; a type that the chain does not know has no bucket.
\<close>

definition bucket_label :: "string \<Rightarrow> string option" where
  "bucket_label t =
     (if t = ''notifyOperationReplaced (with op)'' then Some ''Operations replaced''
      else if t = ''notifyOperationInserted'' then Some ''Operations inserted''
      else if t = ''notifyOperationErased'' then Some ''Operations erased''
      else if t = ''notifyOperationModified'' then Some ''Operations modified''
      else if t = ''notifyOperationReplaced (with values)''
      then Some ''Operations replaced with values''
      else None)"

text \<open>The elements of a list in the order of their first occurrence.\<close>

definition first_seen :: "'a list \<Rightarrow> 'a list" where
  "first_seen xs = rev (remdups (rev xs))"

text \<open>
  Following the words of the specification: the five bucket labels in their fixed order,
  and the sections of a report as the labels of the buckets that are not empty, in that
  order.
\<close>

definition bucket_order :: "string list" where
  "bucket_order =
     [''Operations replaced'', ''Operations inserted'', ''Operations erased'',
      ''Operations modified'', ''Operations replaced with values'']"

definition spec_section_order :: "modification list \<Rightarrow> string list" where
  "spec_section_order ops =
     filter (\<lambda>l. l \<in> set (List.map_filter (\<lambda>r. bucket_label (mtype r)) ops)) bucket_order"

text \<open>The number that a decimal numeral stands for.\<close>

definition digits_value :: "string \<Rightarrow> nat" where
  "digits_value s = foldl (\<lambda>a c. 10 * a + (of_char c - 48)) 0 s"

text \<open>
  The path of the report of the pattern \<open>name\<close> when the counter is \<open>n\<close>, as
  \<^verbatim>\<open>create_hugo_post\<close> computes it.
\<close>

definition report_path :: "string \<Rightarrow> string \<Rightarrow> nat \<Rightarrow> string" where
  "report_path dir name n =
     path_join dir
       (lower (re_sub_invalid (extract_class_name name) @ ''_'' @ str_nat n) @ ''.md'')"

text \<open>
  The sections of a report as the code makes them: the labels of the types of the
  records, in the order of their first occurrence, and under a label the records of
  that label in the order of the input.
\<close>

definition section_labels :: "modification list \<Rightarrow> string list" where
  "section_labels ops = first_seen (List.map_filter (\<lambda>r. bucket_label (mtype r)) ops)"

definition bucket_records :: "string \<Rightarrow> modification list \<Rightarrow> modification list" where
  "bucket_records l ops = filter (\<lambda>r. bucket_label (mtype r) = Some l) ops"

text \<open>A section of the report: the heading with the label, the bullets, an empty line.\<close>

definition section_text :: "string \<Rightarrow> string \<Rightarrow> string" where
  "section_text l body = ''### '' @ l @ ''\<newline>\<newline>'' @ body @ ''\<newline>''"

text \<open>
  The two forms of bullet: a record in the section \<^verbatim>\<open>Operations replaced\<close> is listed
  with \<^verbatim>\<open>old_op\<close>, the arrow and \<^verbatim>\<open>new_op\<close>, a record in any other section with its
  \<^verbatim>\<open>op\<close> alone. \<open>has_keys\<close> says that the record has the keys of its form; \<open>field\<close> is
  the value of a key, the empty text for a key that is absent.
\<close>

definition field :: "string option \<Rightarrow> string" where
  "field v = (case v of None \<Rightarrow> [] | Some x \<Rightarrow> x)"

definition bullet :: "string \<Rightarrow> modification \<Rightarrow> string" where
  "bullet l r =
     (if l = ''Operations replaced''
      then ''- `'' @ field (old_op r) @ ''` '' @ arrow @ '' `'' @ field (new_op r) @ ''`\<newline>''
      else ''- `'' @ field (op r) @ ''`\<newline>'')"

definition has_keys :: "string \<Rightarrow> modification \<Rightarrow> bool" where
  "has_keys l r =
     (if l = ''Operations replaced'' then old_op r \<noteq> None \<and> new_op r \<noteq> None
      else op r \<noteq> None)"

section \<open>Properties\<close>

subsection \<open>Decimal numerals and lower-casing\<close>

lemma split_from_not_Nil: "split_from sep acc s \<noteq> []"
  by (induction sep acc s rule: split_from.induct) auto

lemma lower_char_digit: "d < 10 \<Longrightarrow> lower_char (char_of (48 + d :: nat)) = char_of (48 + d)"
  by (simp add: lower_char_def Let_def)

lemma lower_str_nat: "lower (str_nat n) = str_nat n"
proof (induction n rule: str_nat.induct)
  case (1 n)
  show ?case
  proof (cases "n < 10")
    case True
    then show ?thesis
      by (subst (1 2) str_nat.simps) (simp add: lower_def lower_char_digit)
  next
    case False
    have "n mod 10 < 10" by simp
    with False 1 show ?thesis
      by (subst (1 2) str_nat.simps) (simp add: lower_def lower_char_digit)
  qed
qed

subsection \<open>The parser and the index on single lines\<close>

text \<open>
  C1: a line whose second field is \<^verbatim>\<open>notifyOperationReplaced (with op)\<close> and that has 3 or
  5 fields is parsed into a record that holds field 2 under \<^verbatim>\<open>op\<close> and has no
  \<^verbatim>\<open>old_op\<close>; the index builder then looks up \<^verbatim>\<open>old_op\<close> and raises KeyError, and the
  run ends there with no file written.
\<close>

theorem replaced_with_op_short_line_KeyError:
  "parse_lines [''P | notifyOperationReplaced (with op) | X''] =
     [(''P'', [\<lparr>mtype = ''notifyOperationReplaced (with op)'', op = Some ''X'',
                old_op = None, new_op = None\<rparr>])]
   \<and> build_search_index (parse_lines [''P | notifyOperationReplaced (with op) | X'']) =
       Inl (KeyError ''old_op'')
   \<and> parse_lines [''P | notifyOperationReplaced (with op) | X | Y | Z''] =
       [(''P'', [\<lparr>mtype = ''notifyOperationReplaced (with op)'', op = Some ''X'',
                  old_op = None, new_op = None\<rparr>])]
   \<and> build_search_index (parse_lines [''P | notifyOperationReplaced (with op) | X | Y | Z'']) =
       Inl (KeyError ''old_op'')
   \<and> fst (main argv_catalog (catalog_world [''P | notifyOperationReplaced (with op) | X\<newline>''])) =
       Inl (KeyError ''old_op'')
   \<and> written (snd (main argv_catalog
                      (catalog_world [''P | notifyOperationReplaced (with op) | X\<newline>'']))) = []"
  by code_simp

text \<open>
  C4: the line \<^verbatim>\<open>FooPattern | notifyOperationReplaced (with op) | OldOp | NewOp\<close> gives,
  under the pattern \<^verbatim>\<open>FooPattern\<close>, one record with \<^verbatim>\<open>old_op\<close> OldOp and \<^verbatim>\<open>new_op\<close>
  NewOp, and the index built from it maps OldOp and NewOp to the list that holds
  FooPattern.
\<close>

theorem foo_pattern_line_indexed:
  "parse_lines [''FooPattern | notifyOperationReplaced (with op) | OldOp | NewOp''] =
     [(''FooPattern'', [\<lparr>mtype = ''notifyOperationReplaced (with op)'', op = None,
                         old_op = Some ''OldOp'', new_op = Some ''NewOp''\<rparr>])]
   \<and> build_search_index
         (parse_lines [''FooPattern | notifyOperationReplaced (with op) | OldOp | NewOp'']) =
       Inr [(''OldOp'', [''FooPattern'']), (''NewOp'', [''FooPattern''])]"
  by code_simp

subsection \<open>The driver's summary\<close>

text \<open>
  C5: in a run with the default arguments the index is written to
  \<^verbatim>\<open>website/static/pattern_catalog_index.json\<close>, while the summary line names
  \<^verbatim>\<open>search_data/pattern_catalog_index.json\<close> as the place where it was saved.
\<close>

theorem default_run_summary_names_other_path:
  "fst (main argv_catalog (catalog_world [''BarPattern | notifyOperationInserted | NewOp\<newline>''])) =
     Inr ()
   \<and> map fst (written (snd (main argv_catalog
                 (catalog_world [''BarPattern | notifyOperationInserted | NewOp\<newline>''])))) =
       [''website/static/pattern_catalog_index.json'',
        ''website/content/patterns/barpattern_0.md'']
   \<and> stdout (snd (main argv_catalog
                 (catalog_world [''BarPattern | notifyOperationInserted | NewOp\<newline>'']))) ! 3 =
       ''Preprocessing complete. Search index saved to '' @ [CHR 0x27]
       @ ''search_data/pattern_catalog_index.json'' @ [CHR 0x27]"
  by code_simp

subsection \<open>Identifiers and class names\<close>





subsection \<open>The first field of a line\<close>

lemma strip_prefix_dropWhile: "prefix (strip s) (dropWhile isspace s)"
  unfolding strip_def by (metis suffix_dropWhile suffix_to_prefix rev_rev_ident)

lemma strip_hd_not_space:
  assumes "strip s \<noteq> []"
  shows "\<not> isspace (hd (strip s))"
proof -
  from strip_prefix_dropWhile obtain zs where eq: "dropWhile isspace s = strip s @ zs"
    by (auto elim: prefixE)
  with assms have "hd (strip s) = hd (dropWhile isspace s)" by simp
  moreover from eq assms have "dropWhile isspace s \<noteq> []" by auto
  ultimately show ?thesis by (simp add: hd_dropWhile)
qed

lemma strip_not_Nil:
  assumes "p \<noteq> []" and "\<not> isspace (hd p)"
  shows "strip p \<noteq> []"
proof -
  from assms have "dropWhile isspace p = p" by (cases p) auto
  moreover from assms have "hd p \<in> set (rev p)" by simp
  with assms(2) have "dropWhile isspace (rev p) \<noteq> []"
    by (auto simp: dropWhile_eq_Nil_conv simp del: set_rev)
  ultimately show ?thesis by (simp add: strip_def)
qed

text \<open>
  The first field is the text before the first separator: it is a prefix of the text,
  and when there is a second field the separator follows it.
\<close>

lemma split_from_first:
  "\<exists>p. hd (split_from sep acc s) = acc @ p \<and> prefix p s
       \<and> (1 < length (split_from sep acc s) \<longrightarrow> sep \<noteq> [] \<and> prefix (p @ sep) s)"
proof (induction sep acc s rule: split_from.induct)
  case (1 sep acc)
  show ?case by simp
next
  case (2 sep acc c cs)
  show ?case
  proof (cases "sep \<noteq> [] \<and> prefix sep (c # cs)")
    case True
    then show ?thesis using split_from_not_Nil [of sep "[]" "drop (length sep) (c # cs)"]
      by (intro exI [of _ "[]"]) simp
  next
    case False
    with 2 obtain p where p: "hd (split_from sep (acc @ [c]) cs) = (acc @ [c]) @ p"
      "prefix p cs"
      "1 < length (split_from sep (acc @ [c]) cs) \<longrightarrow> sep \<noteq> [] \<and> prefix (p @ sep) cs"
      by blast
    with False show ?thesis
      by (intro exI [of _ "c # p"]) auto
  qed
qed

lemma first_field_not_blank:
  assumes "2 \<le> length (split (strip raw) '' | '')"
  shows "strip (split (strip raw) '' | '' ! 0) \<noteq> []"
proof -
  let ?s = "strip raw" and ?parts = "split (strip raw) '' | ''"
  from split_from_first [of "'' | ''" "[]" ?s] assms
  obtain p where p: "hd ?parts = p" "prefix (p @ '' | '') ?s"
    by (auto simp: split_def)
  then obtain zs where s: "?s = p @ '' | '' @ zs" by (auto elim!: prefixE)
  then have ne: "?s \<noteq> []" by auto
  have sp: "isspace CHR '' ''" by (simp add: isspace_def)
  have "p \<noteq> []"
  proof
    assume "p = []"
    with s have "hd ?s = CHR '' ''" by simp
    with strip_hd_not_space [OF ne] sp show False by simp
  qed
  moreover from this s have "hd p = hd ?s" by (cases p) auto
  with strip_hd_not_space [OF ne] have "\<not> isspace (hd p)" by simp
  ultimately have "strip p \<noteq> []" by (rule strip_not_Nil)
  moreover from assms have "?parts ! 0 = hd ?parts" by (cases ?parts) auto
  ultimately show ?thesis using p(1) by simp
qed

lemma map_fst_dd_update:
  "map fst (dd_update f dflt k d) = (if k \<in> set (map fst d) then map fst d else map fst d @ [k])"
proof (induction d)
  case Nil
  show ?case by simp
next
  case (Cons x d)
  obtain k' v where x: "x = (k', v)" by (cases x)
  show ?case
  proof (cases "k' = k")
    case True
    with x show ?thesis by simp
  next
    case False
    with x Cons show ?thesis by (cases "k \<in> set (map fst d)") simp_all
  qed
qed

lemma keys_dd_update: "fst ` set (dd_update f dflt k d) = insert k (fst ` set d)"
proof -
  have "set (map fst (dd_update f dflt k d)) = insert k (set (map fst d))"
    by (simp add: map_fst_dd_update insert_absorb del: set_map)
  then show ?thesis by (simp only: set_map)
qed

lemma keys_parse_line:
  "fst ` set (parse_line pats raw) =
     (if 3 \<le> length (split (strip raw) '' | '')
      then insert (split (strip raw) '' | '' ! 0) (fst ` set pats) else fst ` set pats)"
proof (cases "3 \<le> length (split (strip raw) '' | '')")
  case True
  then have "strip (split (strip raw) '' | '' ! 0) \<noteq> []"
    by (intro first_field_not_blank) simp
  moreover from True have "strip raw \<noteq> []"
    by (auto simp: split_def)
  ultimately show ?thesis using True
    by (simp add: parse_line_def Let_def dd_append_def keys_dd_update)
next
  case False
  then show ?thesis
    by (auto simp: parse_line_def Let_def)
qed

lemma keys_foldl_parse_line:
  "fst ` set (foldl parse_line pats ls) =
     fst ` set pats
     \<union> {split (strip l) '' | '' ! 0 | l. l \<in> set ls \<and> 3 \<le> length (split (strip l) '' | '')}"
  by (induction ls arbitrary: pats) (auto simp: keys_parse_line)

text \<open>
  C9: on a line that passes the check for at least 3 fields, the first field of the
  stripped line is neither empty nor made of white space only, so the parser never
  substitutes \<^verbatim>\<open>unknown\<close>; and every pattern name in the parser's output is the first
  field of the stripped text of some input line with at least 3 fields.
\<close>

theorem first_field_never_blank:
  "(3 \<le> length (split (strip raw) '' | '') \<longrightarrow> strip (split (strip raw) '' | '' ! 0) \<noteq> [])
   \<and> (k \<in> fst ` set (parse_lines ls) \<longrightarrow>
        (\<exists>l \<in> set ls. 3 \<le> length (split (strip l) '' | '')
                     \<and> k = split (strip l) '' | '' ! 0))"
  using first_field_not_blank [of raw] by (auto simp: parse_lines_def keys_foldl_parse_line)

theorem first_field_never_blank_witness:
  "3 \<le> length (split (strip ''  Foo | notifyOperationInserted | X\<newline>'') '' | '')
   \<and> strip (split (strip ''  Foo | notifyOperationInserted | X\<newline>'') '' | '' ! 0) \<noteq> []
   \<and> ''Foo'' \<in> fst ` set (parse_lines [''  Foo | notifyOperationInserted | X\<newline>''])
   \<and> split (strip ''  Foo | notifyOperationInserted | X\<newline>'') '' | '' ! 0 = ''Foo''"
proof -
  have len: "3 \<le> length (split (strip ''  Foo | notifyOperationInserted | X\<newline>'') '' | '')"
    by code_simp
  have key: "''Foo'' \<in> fst ` set (parse_lines [''  Foo | notifyOperationInserted | X\<newline>''])"
    by code_simp
  from first_field_never_blank [of "''  Foo | notifyOperationInserted | X\<newline>''" "''Foo''"
      "[''  Foo | notifyOperationInserted | X\<newline>'']"] len key
  show ?thesis by simp
qed

subsection \<open>The search index\<close>

lemma map_of_dd_update:
  "map_of (dd_update f dflt k d) =
     (map_of d)(k \<mapsto> f (case map_of d k of None \<Rightarrow> dflt | Some v \<Rightarrow> v))"
  by (induction d) (auto simp: fun_eq_iff)

lemma snd_set_dd_update:
  "(k', v') \<in> set (dd_update f dflt k d) \<Longrightarrow>
     (k', v') \<in> set d \<or> (k' = k \<and> (\<exists>v. v' = f v \<and> (v = dflt \<or> (k, v) \<in> set d)))"
proof (induction f dflt k d rule: dd_update.induct)
  case (1 f dflt k)
  then show ?case by auto
next
  case (2 f dflt k k1 v1 d)
  show ?case
  proof (cases "k1 = k")
    case True
    with 2 show ?thesis by auto
  next
    case False
    with "2.prems" have "(k', v') = (k1, v1) \<or> (k', v') \<in> set (dd_update f dflt k d)"
      by simp
    with "2.IH" [OF False] show ?thesis by auto
  qed
qed

lemma distinct_count_list_1: "distinct xs \<Longrightarrow> x \<in> set xs \<Longrightarrow> count_list xs x = 1"
  by (induction xs) auto

lemma distinct_set_add: "distinct s \<Longrightarrow> distinct (set_add x s)"
  by (simp add: set_add_def)

lemma index_ok_add:
  assumes "index_ok idx"
  shows "index_ok (dd_update (set_add p) [] k idx)"
proof -
  from assms have keys: "distinct (map fst idx)"
    and vals: "\<And>k' ps. (k', ps) \<in> set idx \<Longrightarrow> distinct ps"
    by (auto simp: index_ok_def list_all_iff)
  from keys have "distinct (map fst (dd_update (set_add p) [] k idx))"
    by (simp add: map_fst_dd_update del: set_map)
  moreover have "distinct ps'" if "(k', ps') \<in> set (dd_update (set_add p) [] k idx)" for k' ps'
    using snd_set_dd_update [OF that] vals by (auto intro: distinct_set_add)
  ultimately show ?thesis
    by (auto simp: index_ok_def list_all_iff)
qed

lemma listed_add_same: "listed (dd_update (set_add p) [] k idx) k p"
  by (simp add: listed_def map_of_dd_update set_add_def split: option.splits)

lemma listed_add_mono: "listed idx k' q \<Longrightarrow> listed (dd_update (set_add p) [] k idx) k' q"
  by (auto simp: listed_def map_of_dd_update set_add_def split: option.splits)

lemma index_mods_ok:
  "index_mods p mods idx = Inr idx' \<Longrightarrow> index_ok idx \<Longrightarrow> index_ok idx'"
  by (induction mods arbitrary: idx)
     (auto simp: getitem_def index_ok_add split: if_splits option.splits)

lemma index_mods_mono:
  "index_mods p mods idx = Inr idx' \<Longrightarrow> listed idx k q \<Longrightarrow> listed idx' k q"
  by (induction mods arbitrary: idx)
     (auto simp: getitem_def listed_add_mono split: if_splits option.splits)

lemma index_mods_listed:
  "index_mods p mods idx = Inr idx' \<Longrightarrow> m \<in> set mods \<Longrightarrow> k \<in> indexed_ops m \<Longrightarrow>
     listed idx' k p"
proof (induction mods arbitrary: idx)
  case Nil
  then show ?case by simp
next
  case (Cons m' mods)
  show ?case
  proof (cases "m = m'")
    case True
    with Cons.prems show ?thesis
      by (auto simp: getitem_def indexed_ops_def split: if_splits option.splits
          intro: index_mods_mono listed_add_same listed_add_mono)
  next
    case False
    with Cons show ?thesis
      by (auto simp: getitem_def split: if_splits option.splits)
  qed
qed

lemma index_patterns_ok:
  "index_patterns pats idx = Inr idx' \<Longrightarrow> index_ok idx \<Longrightarrow> index_ok idx'"
proof (induction pats arbitrary: idx)
  case Nil
  then show ?case by simp
next
  case (Cons x pats)
  obtain p' mods' where x: "x = (p', mods')" by (cases x)
  from Cons.prems(1) x obtain idx1 where
    1: "index_mods p' mods' idx = Inr idx1" and 2: "index_patterns pats idx1 = Inr idx'"
    by (auto split: sum.splits)
  from 1 Cons.prems(2) have "index_ok idx1" by (rule index_mods_ok)
  with 2 show ?case by (rule Cons.IH)
qed

lemma index_patterns_mono:
  "index_patterns pats idx = Inr idx' \<Longrightarrow> listed idx k q \<Longrightarrow> listed idx' k q"
proof (induction pats arbitrary: idx)
  case Nil
  then show ?case by simp
next
  case (Cons x pats)
  obtain p' mods' where x: "x = (p', mods')" by (cases x)
  from Cons.prems(1) x obtain idx1 where
    1: "index_mods p' mods' idx = Inr idx1" and 2: "index_patterns pats idx1 = Inr idx'"
    by (auto split: sum.splits)
  from 1 Cons.prems(2) have "listed idx1 k q" by (rule index_mods_mono)
  with 2 show ?case by (rule Cons.IH)
qed

lemma index_patterns_listed:
  "index_patterns pats idx = Inr idx' \<Longrightarrow> (p, mods) \<in> set pats \<Longrightarrow> m \<in> set mods \<Longrightarrow>
     k \<in> indexed_ops m \<Longrightarrow> listed idx' k p"
proof (induction pats arbitrary: idx)
  case Nil
  then show ?case by simp
next
  case (Cons x pats)
  obtain p' mods' where x: "x = (p', mods')" by (cases x)
  from Cons.prems(1) x obtain idx1 where
    1: "index_mods p' mods' idx = Inr idx1" and 2: "index_patterns pats idx1 = Inr idx'"
    by (auto split: sum.splits)
  show ?case
  proof (cases "(p, mods) = (p', mods')")
    case True
    with 1 Cons.prems have "listed idx1 k p" by (auto intro: index_mods_listed)
    with 2 show ?thesis by (rule index_patterns_mono)
  next
    case False
    with Cons.prems x have "(p, mods) \<in> set pats" by auto
    with Cons.IH 2 Cons.prems show ?thesis by blast
  qed
qed

lemma build_search_index_eq:
  "build_search_index pats = index_patterns pats []"
  by (cases "index_patterns pats []")
     (simp_all add: build_search_index_def list_of_set_def case_prod_unfold)

text \<open>
  When the index is built, every key under which the loops file a record of a pattern
  is a key of the index, the list under it holds the name of the pattern exactly once,
  no key occurs twice and no list holds a name twice.
\<close>

lemma built_index_lists_each_pattern_once:
  assumes "build_search_index pats = Inr idx"
    and "(p, mods) \<in> set pats" and "m \<in> set mods" and "k \<in> indexed_ops m"
  shows "distinct (map fst idx) \<and>
         (\<exists>ps. map_of idx k = Some ps \<and> (k, ps) \<in> set idx \<and> distinct ps \<and> count_list ps p = 1)"
proof -
  from assms(1) have built: "index_patterns pats [] = Inr idx"
    by (simp add: build_search_index_eq)
  have "index_ok []" by (simp add: index_ok_def)
  with built have ok: "index_ok idx" by (rule index_patterns_ok)
  from built assms(2-4) have "listed idx k p" by (rule index_patterns_listed)
  then obtain ps where ps: "map_of idx k = Some ps" "p \<in> set ps"
    by (auto simp: listed_def split: option.splits)
  then have mem: "(k, ps) \<in> set idx" by (auto dest: map_of_SomeD)
  with ok have "distinct ps" by (auto simp: index_ok_def list_all_iff)
  with ps(2) have "count_list ps p = 1" by (simp add: distinct_count_list_1)
  with ok ps mem \<open>distinct ps\<close> show ?thesis by (simp add: index_ok_def)
qed

text \<open>The index is built only when every record has the keys that its type asks for.\<close>

lemma index_mods_keys:
  "index_mods p mods idx = Inr idx' \<Longrightarrow> m \<in> set mods \<Longrightarrow>
     (if mtype m = ''notifyOperationReplaced (with op)''
      then old_op m \<noteq> None \<and> new_op m \<noteq> None else op m \<noteq> None)"
proof (induction mods arbitrary: idx)
  case Nil
  then show ?case by simp
next
  case (Cons m' mods)
  show ?case
  proof (cases "m = m'")
    case True
    with Cons.prems(1) show ?thesis
      by (auto simp: getitem_def split: if_splits option.splits)
  next
    case False
    with Cons.prems have "m \<in> set mods" by simp
    moreover from Cons.prems(1) obtain idx1 where "index_mods p mods idx1 = Inr idx'"
      by (auto simp: getitem_def split: if_splits option.splits)
    ultimately show ?thesis using Cons.IH by blast
  qed
qed

lemma index_patterns_keys:
  "index_patterns pats idx = Inr idx' \<Longrightarrow> (p, mods) \<in> set pats \<Longrightarrow> m \<in> set mods \<Longrightarrow>
     (if mtype m = ''notifyOperationReplaced (with op)''
      then old_op m \<noteq> None \<and> new_op m \<noteq> None else op m \<noteq> None)"
proof (induction pats arbitrary: idx)
  case Nil
  then show ?case by simp
next
  case (Cons x pats)
  obtain p' mods' where x: "x = (p', mods')" by (cases x)
  from Cons.prems(1) x obtain idx1 where
    1: "index_mods p' mods' idx = Inr idx1" and 2: "index_patterns pats idx1 = Inr idx'"
    by (auto split: sum.splits)
  show ?case
  proof (cases "(p, mods) = (p', mods')")
    case True
    with 1 Cons.prems(3) show ?thesis by (auto dest: index_mods_keys)
  next
    case False
    with Cons.prems x have "(p, mods) \<in> set pats" by auto
    from Cons.IH [OF 2 this Cons.prems(3)] show ?thesis .
  qed
qed

text \<open>Every record in the parser's output has one of the parser's two shapes.\<close>

lemma parse_line_shaped:
  assumes "\<And>p mods m. (p, mods) \<in> set pats \<Longrightarrow> m \<in> set mods \<Longrightarrow> parser_shaped m"
    and "(p, mods) \<in> set (parse_line pats raw)" and "m \<in> set mods"
  shows "parser_shaped m"
proof -
  have step: "parser_shaped m"
    if "(p, mods) \<in> set (dd_append k v pats)" and "parser_shaped v" for k v
    using snd_set_dd_update [OF that(1) [unfolded dd_append_def]] assms(1,3) that(2)
    by auto
  have s1: "parser_shaped \<lparr>mtype = ''notifyOperationReplaced (with op)'', op = None,
      old_op = Some a, new_op = Some b\<rparr>" for a b
    by (simp add: parser_shaped_def)
  have s2: "parser_shaped \<lparr>mtype = t, op = Some a, old_op = None, new_op = None\<rparr>" for t a
    by (simp add: parser_shaped_def)
  from assms(2) show ?thesis
    by (auto simp: parse_line_def Let_def split: if_splits
        intro: assms(1) [OF _ assms(3)] step s1 s2)
qed

lemma foldl_parse_line_shaped:
  "(\<And>p mods m. (p, mods) \<in> set pats \<Longrightarrow> m \<in> set mods \<Longrightarrow> parser_shaped m) \<Longrightarrow>
     (p, mods) \<in> set (foldl parse_line pats ls) \<Longrightarrow> m \<in> set mods \<Longrightarrow> parser_shaped m"
proof (induction ls arbitrary: pats)
  case Nil
  then show ?case by simp
next
  case (Cons l ls)
  have "parser_shaped m'" if "(p', mods') \<in> set (parse_line pats l)" "m' \<in> set mods'"
    for p' mods' m'
    using Cons.prems(1) that by (rule parse_line_shaped)
  from Cons.IH [OF this] Cons.prems(2,3) show ?case by simp
qed

lemma parse_lines_shaped:
  "(p, mods) \<in> set (parse_lines ls) \<Longrightarrow> m \<in> set mods \<Longrightarrow> parser_shaped m"
  unfolding parse_lines_def by (rule foldl_parse_line_shaped [of "[]"]) simp_all

text \<open>
  For the parser's output: when the index is built, every operation name that a record
  of a pattern holds is a key of the index and the list under it holds the name of the
  pattern exactly once.
\<close>

lemma parsed_index_lists_each_pattern_once:
  assumes "build_search_index (parse_lines ls) = Inr idx"
    and "(p, mods) \<in> set (parse_lines ls)" and "m \<in> set mods" and "k \<in> referenced_ops m"
  shows "distinct (map fst idx) \<and>
         (\<exists>ps. map_of idx k = Some ps \<and> (k, ps) \<in> set idx \<and> distinct ps \<and> count_list ps p = 1)"
proof -
  from assms(1) have "index_patterns (parse_lines ls) [] = Inr idx"
    by (simp add: build_search_index_eq)
  from index_patterns_keys [OF this assms(2,3)] parse_lines_shaped [OF assms(2,3)] assms(4)
  have "k \<in> indexed_ops m"
    by (auto simp: parser_shaped_def referenced_ops_def indexed_ops_def split: if_splits)
  with assms(1-3) show ?thesis by (rule built_index_lists_each_pattern_once)
qed

text \<open>
  C2: the input with the lines \<^verbatim>\<open>A | notifyOperationInserted | Y\<close> and
  \<^verbatim>\<open>P | notifyOperationReplaced (with op) | X\<close> is parsed into two patterns whose records
  hold the operation names Y and X; no index is built from them, since the builder
  raises KeyError on the second record, and the run writes no index file; so neither
  name becomes a key of an index.
\<close>

theorem no_index_for_short_replaced_line:
  "parse_lines [''A | notifyOperationInserted | Y\<newline>'',
                ''P | notifyOperationReplaced (with op) | X\<newline>''] =
     [(''A'', [\<lparr>mtype = ''notifyOperationInserted'', op = Some ''Y'',
                old_op = None, new_op = None\<rparr>]),
      (''P'', [\<lparr>mtype = ''notifyOperationReplaced (with op)'', op = Some ''X'',
                old_op = None, new_op = None\<rparr>])]
   \<and> ''Y'' \<in> referenced_ops \<lparr>mtype = ''notifyOperationInserted'', op = Some ''Y'',
                                old_op = None, new_op = None\<rparr>
   \<and> ''X'' \<in> referenced_ops \<lparr>mtype = ''notifyOperationReplaced (with op)'', op = Some ''X'',
                                old_op = None, new_op = None\<rparr>
   \<and> build_search_index
         (parse_lines [''A | notifyOperationInserted | Y\<newline>'',
                       ''P | notifyOperationReplaced (with op) | X\<newline>'']) =
       Inl (KeyError ''old_op'')
   \<and> fst (main argv_catalog
            (catalog_world [''A | notifyOperationInserted | Y\<newline>'',
                            ''P | notifyOperationReplaced (with op) | X\<newline>''])) =
       Inl (KeyError ''old_op'')
   \<and> written (snd (main argv_catalog
                 (catalog_world [''A | notifyOperationInserted | Y\<newline>'',
                                 ''P | notifyOperationReplaced (with op) | X\<newline>'']))) = []"
proof -
  let ?ls = "[''A | notifyOperationInserted | Y\<newline>'',
              ''P | notifyOperationReplaced (with op) | X\<newline>'']"
  have parsed: "parse_lines ?ls =
      [(''A'', [\<lparr>mtype = ''notifyOperationInserted'', op = Some ''Y'',
                 old_op = None, new_op = None\<rparr>]),
       (''P'', [\<lparr>mtype = ''notifyOperationReplaced (with op)'', op = Some ''X'',
                 old_op = None, new_op = None\<rparr>])]"
    by code_simp
  have built: "build_search_index (parse_lines ?ls) = Inl (KeyError ''old_op'')"
    by code_simp
  have run: "fst (main argv_catalog (catalog_world ?ls)) = Inl (KeyError ''old_op'')"
    by code_simp
  have log: "written (snd (main argv_catalog (catalog_world ?ls))) = []"
    by code_simp
  from parsed built run log show ?thesis by (simp add: referenced_ops_def)
qed

subsection \<open>Grouping the records of a pattern\<close>

lemma bucket_label_None_iff: "bucket_label t = None \<longleftrightarrow> t \<notin> set recognized_types"
  by (simp add: bucket_label_def recognized_types_def)

text \<open>One step of the grouping loop, in terms of the label of the record's type.\<close>

lemma group_operations_Cons:
  "group_operations (r # rs) d =
     (case bucket_label (mtype r) of
        None \<Rightarrow> Inl (ValueError (''unknown modification type: '' @ mtype r))
      | Some l \<Rightarrow> group_operations rs (dd_append l r d))"
  by (simp add: bucket_label_def)

lemma group_operations_unknown:
  "r \<in> set ops \<Longrightarrow> bucket_label (mtype r) = None \<Longrightarrow>
     \<exists>r' \<in> set ops. bucket_label (mtype r') = None
        \<and> group_operations ops d = Inl (ValueError (''unknown modification type: '' @ mtype r'))"
proof (induction ops arbitrary: d)
  case Nil
  then show ?case by simp
next
  case (Cons x ops)
  show ?case
  proof (cases "bucket_label (mtype x)")
    case None
    then show ?thesis by (auto simp: group_operations_Cons simp del: group_operations.simps)
  next
    case (Some l)
    with Cons.prems have "r \<in> set ops" by auto
    from Cons.IH [OF this Cons.prems(2), of "dd_append l x d"] Some show ?thesis
      by (auto simp: group_operations_Cons simp del: group_operations.simps)
  qed
qed

lemma create_hugo_post_unknown:
  assumes "r \<in> set ops" and "bucket_label (mtype r) = None"
  shows "\<exists>r' \<in> set ops. bucket_label (mtype r') = None
           \<and> create_hugo_post name ops dir w =
               (Inl (ValueError (''unknown modification type: '' @ mtype r')),
                w\<lparr>unique_id := unique_id w + 1\<rparr>)"
proof -
  from group_operations_unknown [OF assms, of "[]"] obtain r' where
    "r' \<in> set ops" "bucket_label (mtype r') = None"
    "group_operations ops [] = Inl (ValueError (''unknown modification type: '' @ mtype r'))"
    by blast
  then show ?thesis
    by (intro bexI [of _ r']) (simp_all add: create_hugo_post_def sanitize_filename_def Let_def)
qed

lemma posts_loop_unknown:
  "(name, ops) \<in> set pats \<Longrightarrow> r \<in> set ops \<Longrightarrow> bucket_label (mtype r) = None \<Longrightarrow>
     isl (fst (posts_loop pats dir w))"
proof (induction pats arbitrary: w)
  case Nil
  then show ?case by simp
next
  case (Cons x pats)
  obtain name' ops' where x: "x = (name', ops')" by (cases x)
  obtain res w' where post: "create_hugo_post name' ops' dir w = (res, w')"
    by (cases "create_hugo_post name' ops' dir w")
  show ?case
  proof (cases res)
    case (Inl e)
    with x post show ?thesis by simp
  next
    case (Inr u)
    have "(name, ops) \<noteq> (name', ops')"
    proof
      assume "(name, ops) = (name', ops')"
      with create_hugo_post_unknown [OF Cons.prems(2,3), of name dir w] post Inr
      show False by auto
    qed
    with Cons.prems x have "(name, ops) \<in> set pats" by auto
    from Cons.IH [OF this Cons.prems(2,3), of w'] x post Inr show ?thesis by simp
  qed
qed

lemma generate_posts_unknown:
  assumes "(name, ops) \<in> set pats" and "r \<in> set ops" and "bucket_label (mtype r) = None"
  shows "isl (fst (generate_posts pats dir w))"
proof -
  let ?w = "print (''Found '' @ str_nat (length pats) @ '' patterns'') w"
  from posts_loop_unknown [OF assms, of dir ?w]
  obtain e w' where "posts_loop pats dir ?w = (Inl e, w')"
    by (cases "posts_loop pats dir ?w") (auto simp: isl_def)
  then show ?thesis by (simp add: generate_posts_def)
qed

lemma preprocess_data_unknown:
  assumes "readable w f = Some ls" and "(name, ops) \<in> set (parse_lines ls)"
    and "r \<in> set ops" and "bucket_label (mtype r) = None"
  shows "isl (fst (preprocess_data f odir cdir idir ifn w))"
proof -
  let ?w1 = "makedirs odir w"
  from assms(1) have parsed: "parse_file f ?w1 = Inr (parse_lines ls)"
    by (simp add: parse_file_def makedirs_def)
  show ?thesis
  proof (cases "build_search_index (parse_lines ls)")
    case (Inl e)
    with parsed show ?thesis by (simp add: preprocess_data_def Let_def)
  next
    case (Inr idx)
    let ?w2 = "write_file (path_join idir ifn) (Json idx) ?w1"
    from generate_posts_unknown [OF assms(2-4), of cdir ?w2]
    obtain e w' where "generate_posts (parse_lines ls) cdir ?w2 = (Inl e, w')"
      by (cases "generate_posts (parse_lines ls) cdir ?w2") (auto simp: isl_def)
    with parsed Inr show ?thesis by (simp add: preprocess_data_def Let_def)
  qed
qed

text \<open>
  C6: when a record of a pattern has a type outside the five recognised ones, the report
  of that pattern is not written: \<^verbatim>\<open>create_hugo_post\<close> raises ValueError naming the type of
  such a record, and \<^verbatim>\<open>generate_posts\<close> and \<^verbatim>\<open>preprocess_data\<close> end with an error.
\<close>

theorem unknown_type_aborts_run:
  assumes "r \<in> set ops" and "mtype r \<notin> set recognized_types"
  shows "(\<exists>r' \<in> set ops. mtype r' \<notin> set recognized_types
            \<and> create_hugo_post name ops dir w =
                (Inl (ValueError (''unknown modification type: '' @ mtype r')),
                 w\<lparr>unique_id := unique_id w + 1\<rparr>))
         \<and> ((name, ops) \<in> set pats \<longrightarrow> isl (fst (generate_posts pats dir w)))
         \<and> (readable w f = Some ls \<and> (name, ops) \<in> set (parse_lines ls) \<longrightarrow>
              isl (fst (preprocess_data f odir cdir idir ifn w)))"
proof -
  from assms(2) have none: "bucket_label (mtype r) = None"
    by (simp add: bucket_label_None_iff)
  from create_hugo_post_unknown [OF assms(1) none, of name dir w]
  have "\<exists>r' \<in> set ops. mtype r' \<notin> set recognized_types
            \<and> create_hugo_post name ops dir w =
                (Inl (ValueError (''unknown modification type: '' @ mtype r')),
                 w\<lparr>unique_id := unique_id w + 1\<rparr>)"
    by (auto simp: bucket_label_None_iff)
  moreover have "isl (fst (generate_posts pats dir w))" if "(name, ops) \<in> set pats"
    using generate_posts_unknown [OF that assms(1) none] .
  moreover have "isl (fst (preprocess_data f odir cdir idir ifn w))"
    if "readable w f = Some ls" "(name, ops) \<in> set (parse_lines ls)"
    using preprocess_data_unknown [OF that assms(1) none] .
  ultimately show ?thesis by blast
qed

theorem unknown_type_aborts_run_witness:
  "mtype \<lparr>mtype = ''notifyOperationMoved'', op = Some ''X'', old_op = None, new_op = None\<rparr>
     \<notin> set recognized_types
   \<and> parse_lines [''P | notifyOperationMoved | X\<newline>''] =
       [(''P'', [\<lparr>mtype = ''notifyOperationMoved'', op = Some ''X'',
                  old_op = None, new_op = None\<rparr>])]
   \<and> fst (create_hugo_post ''P''
             [\<lparr>mtype = ''notifyOperationMoved'', op = Some ''X'', old_op = None, new_op = None\<rparr>]
             ''website/content/patterns/'' (catalog_world [''P | notifyOperationMoved | X\<newline>''])) =
       Inl (ValueError ''unknown modification type: notifyOperationMoved'')
   \<and> isl (fst (generate_posts
                  [(''P'', [\<lparr>mtype = ''notifyOperationMoved'', op = Some ''X'',
                             old_op = None, new_op = None\<rparr>])]
                  ''website/content/patterns/''
                  (catalog_world [''P | notifyOperationMoved | X\<newline>''])))
   \<and> isl (fst (preprocess_data ''catalog.txt'' ''search_data'' ''website/content/patterns/''
                  ''website/static/'' ''pattern_catalog_index.json''
                  (catalog_world [''P | notifyOperationMoved | X\<newline>''])))"
proof -
  let ?r = "\<lparr>mtype = ''notifyOperationMoved'', op = Some ''X'', old_op = None, new_op = None\<rparr>"
  let ?ls = "[''P | notifyOperationMoved | X\<newline>'']"
  have mem: "?r \<in> set [?r]" by simp
  have unknown: "mtype ?r \<notin> set recognized_types" by (simp add: recognized_types_def)
  have parsed: "parse_lines ?ls = [(''P'', [?r])]" by code_simp
  have readable: "readable (catalog_world ?ls) ''catalog.txt'' = Some ?ls"
    by (simp add: catalog_world_def)
  from unknown_type_aborts_run [OF mem unknown, of "''P''" "''website/content/patterns/''"
      "catalog_world ?ls" "[(''P'', [?r])]" "''catalog.txt''" ?ls "''search_data''"
      "''website/content/patterns/''" "''website/static/''" "''pattern_catalog_index.json''"]
    unknown parsed readable
  show ?thesis by simp
qed

subsection \<open>The sections of a report\<close>

lemma remdups_absorb: "y \<in> set zs \<Longrightarrow> remdups (ys @ y # zs) = remdups (ys @ zs)"
  by (induction ys) (auto simp: insert_absorb)

lemma first_seen_absorb: "l \<in> set ks \<Longrightarrow> first_seen (ks @ l # xs) = first_seen (ks @ xs)"
  by (simp add: first_seen_def remdups_absorb)

lemma first_seen_distinct: "distinct xs \<Longrightarrow> first_seen xs = xs"
  by (simp add: first_seen_def distinct_remdups_id)

lemma group_operations_keys:
  "group_operations ops d = Inr d' \<Longrightarrow> distinct (map fst d) \<Longrightarrow>
     map fst d' = first_seen (map fst d @ List.map_filter (\<lambda>r. bucket_label (mtype r)) ops)"
proof (induction ops arbitrary: d)
  case Nil
  then show ?case by (simp add: first_seen_distinct)
next
  case (Cons r rs)
  from Cons.prems(1) obtain l where l: "bucket_label (mtype r) = Some l"
    and rest: "group_operations rs (dd_append l r d) = Inr d'"
    by (auto simp: group_operations_Cons simp del: group_operations.simps split: option.splits)
  have keys: "map fst (dd_append l r d) =
      (if l \<in> set (map fst d) then map fst d else map fst d @ [l])"
    by (simp add: dd_append_def map_fst_dd_update del: set_map)
  with Cons.prems(2) have "distinct (map fst (dd_append l r d))" by (simp del: set_map)
  from Cons.IH [OF rest this] keys l show ?case
    by (simp add: first_seen_absorb del: set_map)
qed

text \<open>
  C3, as the claim states it, fails: for a pattern whose first record is an insertion and
  whose second record is a replacement, the section of the inserted operations comes
  before the section of the replaced ones, against the fixed order of the labels.
\<close>

theorem sections_fixed_order_counterexample:
  "group_operations
     [\<lparr>mtype = ''notifyOperationInserted'', op = Some ''X'', old_op = None, new_op = None\<rparr>,
      \<lparr>mtype = ''notifyOperationReplaced (with op)'', op = None,
       old_op = Some ''A'', new_op = Some ''B''\<rparr>] [] =
     Inr [(''Operations inserted'',
           [\<lparr>mtype = ''notifyOperationInserted'', op = Some ''X'',
             old_op = None, new_op = None\<rparr>]),
          (''Operations replaced'',
           [\<lparr>mtype = ''notifyOperationReplaced (with op)'', op = None,
             old_op = Some ''A'', new_op = Some ''B''\<rparr>])]
   \<and> render_sections
       [(''Operations inserted'',
         [\<lparr>mtype = ''notifyOperationInserted'', op = Some ''X'',
           old_op = None, new_op = None\<rparr>]),
        (''Operations replaced'',
         [\<lparr>mtype = ''notifyOperationReplaced (with op)'', op = None,
           old_op = Some ''A'', new_op = Some ''B''\<rparr>])] [] =
     Inr (''### Operations inserted\<newline>\<newline>- `X`\<newline>\<newline>''
          @ ''### Operations replaced\<newline>\<newline>- `A` '' @ arrow @ '' `B`\<newline>\<newline>'')
   \<and> spec_section_order
       [\<lparr>mtype = ''notifyOperationInserted'', op = Some ''X'', old_op = None, new_op = None\<rparr>,
        \<lparr>mtype = ''notifyOperationReplaced (with op)'', op = None,
         old_op = Some ''A'', new_op = Some ''B''\<rparr>] =
     [''Operations replaced'', ''Operations inserted'']"
  by code_simp

subsection \<open>Distinct identifiers and report paths\<close>

lemma digits_value_str_nat: "digits_value (str_nat n) = n"
proof (induction n rule: str_nat.induct)
  case (1 n)
  show ?case
  proof (cases "n < 10")
    case True
    then show ?thesis
      by (subst str_nat.simps) (simp add: digits_value_def)
  next
    case False
    have "n mod 10 < 10" by simp
    then have "(of_char (char_of (48 + n mod 10)) :: nat) = 48 + n mod 10" by simp
    with False 1 show ?thesis
      by (subst str_nat.simps) (simp add: digits_value_def)
  qed
qed

lemma str_nat_inj:
  assumes "str_nat m = str_nat n"
  shows "m = n"
proof -
  from assms have "digits_value (str_nat m) = digits_value (str_nat n)" by (simp only:)
  then show ?thesis by (simp only: digits_value_str_nat)
qed

lemma str_nat_no_underscore: "CHR ''_'' \<notin> set (str_nat n)"
proof (induction n rule: str_nat.induct)
  case (1 n)
  have digit: "char_of (48 + d) \<noteq> CHR ''_''" if "d < 10" for d :: nat
  proof
    assume "char_of (48 + d) = CHR ''_''"
    then have "(of_char (char_of (48 + d)) :: nat) = of_char CHR ''_''" by simp
    with that show False by simp
  qed
  show ?case
  proof (cases "n < 10")
    case True
    then show ?thesis by (subst str_nat.simps) (simp add: digit [symmetric] not_sym [OF digit])
  next
    case False
    have "n mod 10 < 10" by simp
    with False 1 not_sym [OF digit [OF this]] show ?thesis by (subst str_nat.simps) simp
  qed
qed

text \<open>The counter can be read off an identifier: it is the text after the last underscore.\<close>

lemma counter_suffix_inj:
  assumes "b1 @ ''_'' @ str_nat i = b2 @ ''_'' @ str_nat j"
  shows "i = j"
proof -
  have tw: "takeWhile (\<lambda>c. c \<noteq> CHR ''_'') (rev (b @ ''_'' @ str_nat n)) = rev (str_nat n)"
    for b n
  proof -
    have "\<And>x. x \<in> set (rev (str_nat n)) \<Longrightarrow> x \<noteq> CHR ''_''"
      using str_nat_no_underscore [of n] by auto
    then have "takeWhile (\<lambda>c. c \<noteq> CHR ''_'') (rev (str_nat n) @ CHR ''_'' # rev b) =
        rev (str_nat n) @ takeWhile (\<lambda>c. c \<noteq> CHR ''_'') (CHR ''_'' # rev b)"
      by (rule takeWhile_append2)
    then show ?thesis by simp
  qed
  from assms have "takeWhile (\<lambda>c. c \<noteq> CHR ''_'') (rev (b1 @ ''_'' @ str_nat i)) =
      takeWhile (\<lambda>c. c \<noteq> CHR ''_'') (rev (b2 @ ''_'' @ str_nat j))"
    by simp
  then have "rev (str_nat i) = rev (str_nat j)" by (simp only: tw)
  then show ?thesis by (simp add: str_nat_inj)
qed

lemma sanitize_filename_eq:
  "fst (sanitize_filename name w) =
     lower (re_sub_invalid (extract_class_name name)) @ ''_'' @ str_nat (unique_id w)"
proof -
  have "lower (b @ ''_'' @ str_nat n) = lower b @ ''_'' @ str_nat n" for b n
    using lower_str_nat [of n] by (simp add: lower_def lower_char_def)
  then show ?thesis
    by (simp add: sanitize_filename_def extract_class_name_def Let_def)
qed

lemma sanitize_filename_counter:
  "snd (sanitize_filename name w) = w\<lparr>unique_id := unique_id w + 1\<rparr>"
  by (simp add: sanitize_filename_def Let_def)

lemma identifiers_differ:
  "unique_id w1 \<noteq> unique_id w2 \<Longrightarrow>
     fst (sanitize_filename name1 w1) \<noteq> fst (sanitize_filename name2 w2)"
  unfolding sanitize_filename_eq by (blast dest: counter_suffix_inj)

lemma lower_sub_not_slash:
  "lower_char (if is_word_char c then c else CHR ''_'') \<noteq> CHR ''/''"
proof
  let ?x = "if is_word_char c then c else CHR ''_''"
  assume eq: "lower_char ?x = CHR ''/''"
  then have 47: "(of_char (lower_char ?x) :: nat) = 47" by simp
  have x: "(of_char ?x :: nat) \<noteq> 47"
    by (auto simp: is_word_char_def Let_def)
  show False
  proof (cases "lower_char ?x = ?x")
    case True
    with 47 x show False by simp
  next
    case False
    then have "65 \<le> (of_char ?x :: nat) \<and> (of_char ?x :: nat) \<le> 222"
      and "lower_char ?x = char_of (of_char ?x + 32 :: nat)"
      by (auto simp: lower_char_def Let_def split: if_splits)
    then have "(of_char (lower_char ?x) :: nat) = of_char ?x + 32"
      by simp
    with 47 \<open>65 \<le> (of_char ?x :: nat) \<and> (of_char ?x :: nat) \<le> 222\<close> show False by simp
  qed
qed

lemma identifier_not_absolute:
  "\<not> prefix ''/'' (lower (re_sub_invalid b @ ''_'' @ str_nat n) @ ''.md'')"
proof (cases b)
  case Nil
  then show ?thesis by (simp add: lower_def re_sub_invalid_def lower_char_def)
next
  case (Cons c cs)
  with lower_sub_not_slash [of c] show ?thesis
    by (simp add: lower_def re_sub_invalid_def)
qed

lemma report_path_inj:
  assumes "report_path dir name1 i = report_path dir name2 j"
  shows "i = j"
proof -
  let ?id1 = "lower (re_sub_invalid (extract_class_name name1) @ ''_'' @ str_nat i)"
  let ?id2 = "lower (re_sub_invalid (extract_class_name name2) @ ''_'' @ str_nat j)"
  from assms identifier_not_absolute [of "extract_class_name name1" i]
    identifier_not_absolute [of "extract_class_name name2" j]
  have "?id1 = ?id2"
    by (simp add: report_path_def path_join_def split: if_splits)
  moreover have "lower (b @ ''_'' @ str_nat n) = lower b @ ''_'' @ str_nat n" for b n
    using lower_str_nat [of n] by (simp add: lower_def lower_char_def)
  ultimately have "lower (re_sub_invalid (extract_class_name name1)) @ ''_'' @ str_nat i =
      lower (re_sub_invalid (extract_class_name name2)) @ ''_'' @ str_nat j"
    by (simp only:)
  then show ?thesis by (rule counter_suffix_inj)
qed

text \<open>
  What one report does to the world: the counter goes up by one, and either nothing is
  written (an error) or one file is written, at the report path of the old counter.
\<close>

lemma create_hugo_post_effect:
  assumes "create_hugo_post name ops dir w = (res, w')"
  shows "unique_id w' = unique_id w + 1
         \<and> (written w' = written w
            \<or> (\<exists>c. written w' = written w @ [(report_path dir name (unique_id w), c)]))"
proof -
  have fn: "sanitize_filename name w =
      (lower (re_sub_invalid (extract_class_name name) @ ''_'' @ str_nat (unique_id w)),
       w\<lparr>unique_id := unique_id w + 1\<rparr>)"
    by (simp add: sanitize_filename_def extract_class_name_def Let_def)
  from assms show ?thesis
    unfolding create_hugo_post_def fn
    by (auto simp: Let_def report_path_def print_def write_file_def makedirs_def
        split: sum.splits)
qed

lemma posts_loop_paths:
  "posts_loop pats dir w = (res, w') \<Longrightarrow>
     unique_id w \<le> unique_id w'
     \<and> (\<exists>zs. written w' = written w @ zs \<and> distinct (map fst zs)
           \<and> list_all (\<lambda>p. \<exists>name n. unique_id w \<le> n \<and> p = report_path dir name n)
                (map fst zs))"
proof (induction pats arbitrary: w)
  case Nil
  then show ?case by simp
next
  case (Cons x pats)
  obtain name ops where x: "x = (name, ops)" by (cases x)
  obtain r1 w1 where post: "create_hugo_post name ops dir w = (r1, w1)"
    by (cases "create_hugo_post name ops dir w")
  from create_hugo_post_effect [OF post]
  have id1: "unique_id w1 = unique_id w + 1"
    and wr1: "written w1 = written w
       \<or> (\<exists>c. written w1 = written w @ [(report_path dir name (unique_id w), c)])"
    by simp_all
  then obtain ys where ys: "written w1 = written w @ ys"
    "ys = [] \<or> map fst ys = [report_path dir name (unique_id w)]"
    by auto
  show ?case
  proof (cases r1)
    case (Inl e)
    with Cons.prems x post have "w' = w1" by simp
    moreover have "list_all (\<lambda>p. \<exists>name n. unique_id w \<le> n \<and> p = report_path dir name n)
        (map fst ys)"
      using ys(2)
    proof
      assume "ys = []"
      then show ?thesis by simp
    next
      assume one: "map fst ys = [report_path dir name (unique_id w)]"
      have "\<exists>name' n. unique_id w \<le> n
          \<and> report_path dir name (unique_id w) = report_path dir name' n"
        by blast
      then show ?thesis unfolding one by (simp only: list.pred_inject simp_thms)
    qed
    moreover from ys(2) have "distinct (map fst ys)" by auto
    ultimately show ?thesis using id1 ys(1)
      by (intro conjI exI [of _ ys]) simp_all
  next
    case (Inr u)
    with Cons.prems x post have "posts_loop pats dir w1 = (res, w')" by simp
    from Cons.IH [OF this] obtain zs where le: "unique_id w1 \<le> unique_id w'"
      and zs: "written w' = written w1 @ zs" "distinct (map fst zs)"
      "list_all (\<lambda>p. \<exists>name n. unique_id w1 \<le> n \<and> p = report_path dir name n) (map fst zs)"
      by blast
    have fresh: "report_path dir name (unique_id w) \<notin> set (map fst zs)"
    proof
      assume "report_path dir name (unique_id w) \<in> set (map fst zs)"
      with zs(3) obtain name' n where "unique_id w1 \<le> n"
        "report_path dir name (unique_id w) = report_path dir name' n"
        by (auto simp: list_all_iff)
      with id1 report_path_inj [of dir name "unique_id w" name' n] show False by simp
    qed
    have all_ys: "list_all (\<lambda>p. \<exists>name n. unique_id w \<le> n \<and> p = report_path dir name n)
        (map fst ys)"
      using ys(2)
    proof
      assume "ys = []"
      then show ?thesis by simp
    next
      assume one: "map fst ys = [report_path dir name (unique_id w)]"
      have "\<exists>name' n. unique_id w \<le> n
          \<and> report_path dir name (unique_id w) = report_path dir name' n"
        by blast
      then show ?thesis unfolding one by (simp only: list.pred_inject simp_thms)
    qed
    have all_zs: "list_all (\<lambda>p. \<exists>name n. unique_id w \<le> n \<and> p = report_path dir name n)
        (map fst zs)"
      unfolding list_all_iff
    proof
      fix p assume "p \<in> set (map fst zs)"
      with zs(3) obtain name' n where "unique_id w1 \<le> n" "p = report_path dir name' n"
        by (auto simp: list_all_iff)
      with id1 have "unique_id w \<le> n \<and> p = report_path dir name' n" by simp
      then show "\<exists>name n. unique_id w \<le> n \<and> p = report_path dir name n" by blast
    qed
    from all_ys all_zs have all: "list_all (\<lambda>p. \<exists>name n. unique_id w \<le> n \<and> p = report_path dir name n)
        (map fst (ys @ zs))"
      by simp
    have dist: "distinct (map fst (ys @ zs))"
      using ys(2)
    proof
      assume "ys = []"
      with zs(2) show ?thesis by simp
    next
      assume one: "map fst ys = [report_path dir name (unique_id w)]"
      from zs(2) fresh show ?thesis by (simp add: one del: set_map)
    qed
    from ys(1) zs(1) have "written w' = written w @ (ys @ zs)" by simp
    with le id1 all dist show ?thesis by (intro conjI exI [of _ "ys @ zs"]) simp_all
  qed
qed

lemma generate_posts_paths:
  assumes "written (snd (generate_posts pats dir w)) = written w @ zs"
  shows "distinct (map fst zs)"
proof -
  let ?w = "print (''Found '' @ str_nat (length pats) @ '' patterns'') w"
  obtain res w' where loop: "posts_loop pats dir ?w = (res, w')"
    by (cases "posts_loop pats dir ?w")
  from posts_loop_paths [OF loop] obtain ys where
    ys: "written w' = written ?w @ ys" "distinct (map fst ys)"
    by blast
  have "written (snd (generate_posts pats dir w)) = written w'"
    using loop by (cases res) (simp_all add: generate_posts_def print_def)
  with ys assms have "zs = ys" by (simp add: print_def)
  with ys show ?thesis by simp
qed

text \<open>
  C8: every call of \<^verbatim>\<open>sanitize_filename\<close> adds one to the counter; identifiers made at
  different values of the counter differ, whatever the names are (so also when the
  sanitised names are the same); and the reports written in one run of
  \<^verbatim>\<open>generate_posts\<close> have pairwise distinct paths, so no report overwrites another.
\<close>

theorem identifiers_and_report_paths_distinct:
  "snd (sanitize_filename name w) = w\<lparr>unique_id := unique_id w + 1\<rparr>
   \<and> (unique_id w1 \<noteq> unique_id w2 \<longrightarrow>
        fst (sanitize_filename name1 w1) \<noteq> fst (sanitize_filename name2 w2))
   \<and> (written (snd (generate_posts pats dir w)) = written w @ zs \<longrightarrow> distinct (map fst zs))"
  using sanitize_filename_counter [of name w] identifiers_differ [of w1 w2 name1 name2]
    generate_posts_paths [of pats dir w zs]
  by blast

theorem identifiers_and_report_paths_distinct_witness:
  "unique_id (catalog_world []) \<noteq> unique_id (snd (sanitize_filename ''a::Foo'' (catalog_world [])))
   \<and> fst (sanitize_filename ''a::Foo'' (catalog_world [])) = ''foo_0''
   \<and> fst (sanitize_filename ''b::Foo'' (snd (sanitize_filename ''a::Foo'' (catalog_world [])))) =
       ''foo_1''
   \<and> fst (sanitize_filename ''a::Foo'' (catalog_world [])) \<noteq>
       fst (sanitize_filename ''b::Foo'' (snd (sanitize_filename ''a::Foo'' (catalog_world []))))
   \<and> map fst (written (snd (generate_posts
         [(''a::Foo'', [\<lparr>mtype = ''notifyOperationErased'', op = Some ''X'',
                         old_op = None, new_op = None\<rparr>]),
          (''b::Foo'', [\<lparr>mtype = ''notifyOperationInserted'', op = Some ''Y'',
                         old_op = None, new_op = None\<rparr>])]
         ''website/content/patterns/'' (catalog_world [])))) =
       [''website/content/patterns/foo_0.md'', ''website/content/patterns/foo_1.md'']
   \<and> distinct (map fst (written (snd (generate_posts
         [(''a::Foo'', [\<lparr>mtype = ''notifyOperationErased'', op = Some ''X'',
                         old_op = None, new_op = None\<rparr>]),
          (''b::Foo'', [\<lparr>mtype = ''notifyOperationInserted'', op = Some ''Y'',
                         old_op = None, new_op = None\<rparr>])]
         ''website/content/patterns/'' (catalog_world [])))))"
proof -
  let ?w = "catalog_world []"
  let ?w1 = "snd (sanitize_filename ''a::Foo'' ?w)"
  let ?pats = "[(''a::Foo'', [\<lparr>mtype = ''notifyOperationErased'', op = Some ''X'',
                              old_op = None, new_op = None\<rparr>]),
               (''b::Foo'', [\<lparr>mtype = ''notifyOperationInserted'', op = Some ''Y'',
                              old_op = None, new_op = None\<rparr>])]"
  let ?run = "generate_posts ?pats ''website/content/patterns/'' ?w"
  have counters: "unique_id ?w \<noteq> unique_id ?w1"
    by (simp add: sanitize_filename_def catalog_world_def Let_def)
  have log: "written (snd ?run) = written ?w @ written (snd ?run)"
    by (simp add: catalog_world_def)
  have first: "fst (sanitize_filename ''a::Foo'' ?w) = ''foo_0''" by code_simp
  have second: "fst (sanitize_filename ''b::Foo'' ?w1) = ''foo_1''" by code_simp
  have paths: "map fst (written (snd ?run)) =
      [''website/content/patterns/foo_0.md'', ''website/content/patterns/foo_1.md'']"
    by code_simp
  from identifiers_and_report_paths_distinct [of "''a::Foo''" ?w ?w ?w1 "''a::Foo''" "''b::Foo''"
      ?pats "''website/content/patterns/''" "written (snd ?run)"] counters log
  have "fst (sanitize_filename ''a::Foo'' ?w) \<noteq> fst (sanitize_filename ''b::Foo'' ?w1)"
    and "distinct (map fst (written (snd ?run)))"
    by blast+
  with counters first second paths show ?thesis by blast
qed

subsection \<open>The text of a report\<close>

lemma alist_rebuild:
  "distinct (map fst d) \<Longrightarrow>
     map (\<lambda>l. (l, case map_of d l of None \<Rightarrow> [] | Some rs \<Rightarrow> rs)) (map fst d) = d"
proof (induction d)
  case Nil
  show ?case by simp
next
  case (Cons x d)
  obtain k v where x: "x = (k, v)" by (cases x)
  from Cons.prems x have k: "k \<notin> set (map fst d)" and dist: "distinct (map fst d)" by simp_all
  have "map (\<lambda>l. (l, case map_of (x # d) l of None \<Rightarrow> [] | Some rs \<Rightarrow> rs)) (map fst d) =
      map (\<lambda>l. (l, case map_of d l of None \<Rightarrow> [] | Some rs \<Rightarrow> rs)) (map fst d)"
    using k x by (intro map_cong) auto
  with Cons.IH [OF dist] x show ?case by simp
qed

text \<open>
  The buckets after the grouping loop: the keys are the labels in the order of first
  occurrence, and each bucket holds what it held before followed by the records of its
  label in the order of the list.
\<close>

lemma group_operations_buckets:
  "group_operations ops d = Inr d' \<Longrightarrow> distinct (map fst d) \<Longrightarrow>
     d' = map (\<lambda>l. (l, (case map_of d l of None \<Rightarrow> [] | Some rs \<Rightarrow> rs) @ bucket_records l ops))
            (first_seen (map fst d @ List.map_filter (\<lambda>r. bucket_label (mtype r)) ops))"
proof (induction ops arbitrary: d)
  case Nil
  with alist_rebuild [of d] show ?case
    by (simp add: first_seen_distinct bucket_records_def)
next
  case (Cons r rs)
  from Cons.prems(1) obtain l0 where l0: "bucket_label (mtype r) = Some l0"
    and rest: "group_operations rs (dd_append l0 r d) = Inr d'"
    by (auto simp: group_operations_Cons simp del: group_operations.simps split: option.splits)
  have keys: "map fst (dd_append l0 r d) =
      (if l0 \<in> set (map fst d) then map fst d else map fst d @ [l0])"
    by (simp add: dd_append_def map_fst_dd_update del: set_map)
  with Cons.prems(2) have dist: "distinct (map fst (dd_append l0 r d))" by (simp del: set_map)
  have labels: "first_seen (map fst (dd_append l0 r d)
        @ List.map_filter (\<lambda>r. bucket_label (mtype r)) rs) =
      first_seen (map fst d @ List.map_filter (\<lambda>r. bucket_label (mtype r)) (r # rs))"
    using keys l0 by (simp add: first_seen_absorb del: set_map)
  have bucket: "(case map_of (dd_append l0 r d) l of None \<Rightarrow> [] | Some rs \<Rightarrow> rs)
        @ bucket_records l rs =
      (case map_of d l of None \<Rightarrow> [] | Some rs \<Rightarrow> rs) @ bucket_records l (r # rs)" for l
    using l0 by (simp add: dd_append_def map_of_dd_update bucket_records_def split: option.splits)
  from Cons.IH [OF rest dist] show ?case
    by (simp only: labels bucket)
qed

lemma group_operations_sections:
  assumes "group_operations ops [] = Inr by_type"
  shows "by_type = map (\<lambda>l. (l, bucket_records l ops)) (section_labels ops)"
  using group_operations_buckets [OF assms] by (simp add: section_labels_def)

lemma section_labels_bucket:
  "l \<in> set (section_labels ops) \<Longrightarrow> r \<in> set (bucket_records l ops) \<Longrightarrow>
     bucket_label (mtype r) = Some l"
  by (simp add: bucket_records_def)

text \<open>The text that the loop over the records of a section adds does not depend on the text before it.\<close>

lemma render_ops_shift:
  "render_ops l rs c =
     (case render_ops l rs [] of Inl e \<Rightarrow> Inl e | Inr body \<Rightarrow> Inr (c @ body))"
proof (induction rs arbitrary: c)
  case Nil
  show ?case by simp
next
  case (Cons r rs)
  show ?case
  proof (cases "render_op l r")
    case (Inl e)
    then show ?thesis by simp
  next
    case (Inr line)
    from Cons.IH [of "c @ line"] Cons.IH [of line] Inr show ?thesis
      by (simp split: sum.splits)
  qed
qed

lemma render_sections_text:
  "render_sections d c = Inr c' \<Longrightarrow>
     \<exists>bodies. map (\<lambda>(l, rs). render_ops l rs []) d = map Inr bodies
        \<and> c' = c @ concat (map2 section_text (map fst d) bodies)"
proof (induction d arbitrary: c)
  case Nil
  then show ?case by simp
next
  case (Cons x d)
  obtain l rs where x: "x = (l, rs)" by (cases x)
  from Cons.prems x obtain c1 where
    1: "render_ops l rs (c @ ''### '' @ l @ ''\<newline>\<newline>'') = Inr c1"
    and 2: "render_sections d (c1 @ ''\<newline>'') = Inr c'"
    by (auto split: sum.splits)
  from 1 render_ops_shift [of l rs "c @ ''### '' @ l @ ''\<newline>\<newline>''"]
  obtain body where body: "render_ops l rs [] = Inr body"
    "c1 = (c @ ''### '' @ l @ ''\<newline>\<newline>'') @ body"
    by (auto split: sum.splits)
  from Cons.IH [OF 2] obtain bodies where
    bodies: "map (\<lambda>(l, rs). render_ops l rs []) d = map Inr bodies"
    "c' = (c1 @ ''\<newline>'') @ concat (map2 section_text (map fst d) bodies)"
    by blast
  with body x show ?case
    by (intro exI [of _ "body # bodies"]) (simp add: section_text_def)
qed

lemma render_op_bullet:
  "render_op l r = Inr line \<Longrightarrow> line = bullet l r \<and> has_keys l r"
  by (auto simp: render_op_def getitem_def bullet_def has_keys_def field_def
      split: if_splits option.splits)

lemma render_ops_bullets:
  "render_ops l rs [] = Inr body \<Longrightarrow>
     body = concat (map (bullet l) rs) \<and> list_all (has_keys l) rs"
proof (induction rs arbitrary: body)
  case Nil
  then show ?case by simp
next
  case (Cons r rs)
  from Cons.prems obtain line where line: "render_op l r = Inr line"
    and rest: "render_ops l rs line = Inr body"
    by (auto split: sum.splits)
  from rest render_ops_shift [of l rs line] obtain body' where
    body': "render_ops l rs [] = Inr body'" "body = line @ body'"
    by (auto split: sum.splits)
  from Cons.IH [OF body'(1)] render_op_bullet [OF line] body'(2) show ?case by simp
qed

text \<open>What a successful call of \<^verbatim>\<open>create_hugo_post\<close> writes.\<close>

lemma create_hugo_post_written:
  assumes "create_hugo_post name ops dir w = (Inr u, w')"
  shows "\<exists>by_type content.
           group_operations ops [] = Inr by_type
           \<and> render_sections by_type
                 (header name (today w) (github_url (extract_class_name name))) = Inr content
           \<and> written w' = written w @ [(report_path dir name (unique_id w), Text content)]"
proof -
  have fn: "sanitize_filename name w =
      (lower (re_sub_invalid (extract_class_name name) @ ''_'' @ str_nat (unique_id w)),
       w\<lparr>unique_id := unique_id w + 1\<rparr>)"
    by (simp add: sanitize_filename_def extract_class_name_def Let_def)
  from assms show ?thesis
    unfolding create_hugo_post_def fn
    by (auto simp: Let_def report_path_def print_def write_file_def makedirs_def
        split: sum.splits)
qed

lemma create_hugo_post_bodies:
  assumes "create_hugo_post name ops dir w = (Inr u, w')"
  shows "\<exists>bodies.
           map (\<lambda>l. render_ops l (bucket_records l ops) []) (section_labels ops) = map Inr bodies
           \<and> written w' = written w @
               [(report_path dir name (unique_id w),
                 Text (header name (today w) (github_url (extract_class_name name))
                       @ concat (map2 section_text (section_labels ops) bodies)))]"
proof -
  from create_hugo_post_written [OF assms] obtain by_type content where
    grouped: "group_operations ops [] = Inr by_type"
    and rendered: "render_sections by_type
        (header name (today w) (github_url (extract_class_name name))) = Inr content"
    and log: "written w' = written w @ [(report_path dir name (unique_id w), Text content)]"
    by blast
  have by_type: "by_type = map (\<lambda>l. (l, bucket_records l ops)) (section_labels ops)"
    using grouped by (rule group_operations_sections)
  from render_sections_text [OF rendered] obtain bodies where
    "map (\<lambda>(l, rs). render_ops l rs []) by_type = map Inr bodies"
    "content = header name (today w) (github_url (extract_class_name name))
       @ concat (map2 section_text (map fst by_type) bodies)"
    by blast
  then have "map (\<lambda>l. render_ops l (bucket_records l ops) []) (section_labels ops) = map Inr bodies"
    and "content = header name (today w) (github_url (extract_class_name name))
       @ concat (map2 section_text (section_labels ops) bodies)"
    by (simp_all add: by_type comp_def)
  with log show ?thesis by blast
qed

text \<open>
  C3, as the code has it: a report that is written has one section for each label that
  the type of a record of the pattern has, in the order in which these labels first
  occur among the records of the pattern; the section of a label has the heading with
  the label and, as its body, what the loop over the records renders for the records of
  that label, in the order of the input.
\<close>

theorem sections_in_order_of_first_occurrence:
  assumes "create_hugo_post name ops dir w = (Inr (), w')"
  shows "\<exists>bodies.
           map (\<lambda>l. render_ops l (bucket_records l ops) []) (section_labels ops) = map Inr bodies
           \<and> written w' = written w @
               [(report_path dir name (unique_id w),
                 Text (header name (today w) (github_url (extract_class_name name))
                       @ concat (map2 section_text (section_labels ops) bodies)))]"
  using assms by (rule create_hugo_post_bodies)

theorem sections_in_order_of_first_occurrence_witness:
  "fst (create_hugo_post ''P''
     [\<lparr>mtype = ''notifyOperationInserted'', op = Some ''X'', old_op = None, new_op = None\<rparr>,
      \<lparr>mtype = ''notifyOperationErased'', op = Some ''Y'', old_op = None, new_op = None\<rparr>,
      \<lparr>mtype = ''notifyOperationInserted'', op = Some ''Z'', old_op = None, new_op = None\<rparr>]
     ''website/content/patterns/'' (catalog_world [])) = Inr ()
   \<and> section_labels
     [\<lparr>mtype = ''notifyOperationInserted'', op = Some ''X'', old_op = None, new_op = None\<rparr>,
      \<lparr>mtype = ''notifyOperationErased'', op = Some ''Y'', old_op = None, new_op = None\<rparr>,
      \<lparr>mtype = ''notifyOperationInserted'', op = Some ''Z'', old_op = None, new_op = None\<rparr>] =
     [''Operations inserted'', ''Operations erased'']
   \<and> written (snd (create_hugo_post ''P''
     [\<lparr>mtype = ''notifyOperationInserted'', op = Some ''X'', old_op = None, new_op = None\<rparr>,
      \<lparr>mtype = ''notifyOperationErased'', op = Some ''Y'', old_op = None, new_op = None\<rparr>,
      \<lparr>mtype = ''notifyOperationInserted'', op = Some ''Z'', old_op = None, new_op = None\<rparr>]
     ''website/content/patterns/'' (catalog_world []))) =
     [(''website/content/patterns/p_0.md'',
       Text (header ''P'' ''2024-01-01'' (github_url ''P'')
             @ ''### Operations inserted\<newline>\<newline>- `X`\<newline>- `Z`\<newline>\<newline>''
             @ ''### Operations erased\<newline>\<newline>- `Y`\<newline>\<newline>''))]"
proof -
  let ?x = "\<lparr>mtype = ''notifyOperationInserted'', op = Some ''X'', old_op = None, new_op = None\<rparr>"
  let ?y = "\<lparr>mtype = ''notifyOperationErased'', op = Some ''Y'', old_op = None, new_op = None\<rparr>"
  let ?z = "\<lparr>mtype = ''notifyOperationInserted'', op = Some ''Z'', old_op = None, new_op = None\<rparr>"
  let ?ops = "[?x, ?y, ?z]"
  let ?post = "create_hugo_post ''P'' ?ops ''website/content/patterns/'' (catalog_world [])"
  have ok: "fst ?post = Inr ()" by code_simp
  then have run: "?post = (Inr (), snd ?post)" by (simp add: prod_eq_iff)
  have labels: "section_labels ?ops = [''Operations inserted'', ''Operations erased'']"
    by code_simp
  have rendered: "map (\<lambda>l. render_ops l (bucket_records l ?ops) [])
        [''Operations inserted'', ''Operations erased''] =
      map Inr [''- `X`\<newline>- `Z`\<newline>'', ''- `Y`\<newline>'']"
    by code_simp
  have path: "report_path ''website/content/patterns/'' ''P'' 0 = ''website/content/patterns/p_0.md''"
    by code_simp
  from sections_in_order_of_first_occurrence [OF run] obtain bodies where
    bodies: "map (\<lambda>l. render_ops l (bucket_records l ?ops) []) (section_labels ?ops) = map Inr bodies"
    and log: "written (snd ?post) = written (catalog_world []) @
        [(report_path ''website/content/patterns/'' ''P'' (unique_id (catalog_world [])),
          Text (header ''P'' (today (catalog_world [])) (github_url (extract_class_name ''P''))
                @ concat (map2 section_text (section_labels ?ops) bodies)))]"
    by blast
  from bodies rendered labels have "map Inr bodies =
      (map Inr [''- `X`\<newline>- `Z`\<newline>'', ''- `Y`\<newline>''] :: (error + string) list)"
    by simp
  then have "bodies = [''- `X`\<newline>- `Z`\<newline>'', ''- `Y`\<newline>'']"
    by (rule map_injective) simp
  moreover have "extract_class_name ''P'' = ''P''" by code_simp
  ultimately show ?thesis using ok labels log path
    by (simp add: catalog_world_def section_text_def)
qed

lemma map2_map_same: "map2 f xs (map g xs) = map (\<lambda>x. f x (g x)) xs"
  by (induction xs) simp_all

lemma rendered_bodies_bullets:
  "map (\<lambda>l. render_ops l (f l) []) ls = map Inr bodies \<Longrightarrow>
     bodies = map (\<lambda>l. concat (map (bullet l) (f l))) ls
     \<and> list_all (\<lambda>l. list_all (has_keys l) (f l)) ls"
proof (induction ls arbitrary: bodies)
  case Nil
  then show ?case by simp
next
  case (Cons l ls)
  from Cons.prems obtain body rest where bodies: "bodies = body # rest"
    and body: "render_ops l (f l) [] = Inr body"
    and rest: "map (\<lambda>l. render_ops l (f l) []) ls = map Inr rest"
    by (cases bodies) auto
  from Cons.IH [OF rest] render_ops_bullets [OF body] bodies show ?case by simp
qed

lemma grouped_records_labelled:
  assumes "group_operations ops d = Inr d'" and "r \<in> set ops"
  shows "bucket_label (mtype r) \<noteq> None"
proof
  assume "bucket_label (mtype r) = None"
  from group_operations_unknown [OF assms(2) this, of d] assms(1) show False by auto
qed

lemma map_filter_member:
  "x \<in> set xs \<Longrightarrow> f x = Some y \<Longrightarrow> y \<in> set (List.map_filter f xs)"
  by (induction xs) (auto split: option.splits)

lemma grouped_records_listed:
  assumes "group_operations ops d = Inr d'"
  shows "list_all (\<lambda>r. list_ex (\<lambda>l. r \<in> set (bucket_records l ops)) (section_labels ops)) ops"
  unfolding list_all_iff list_ex_iff
proof
  fix r assume r: "r \<in> set ops"
  with assms have "bucket_label (mtype r) \<noteq> None" by (rule grouped_records_labelled)
  then obtain l where l: "bucket_label (mtype r) = Some l" by auto
  with r have "l \<in> set (section_labels ops)"
    by (simp add: section_labels_def first_seen_def map_filter_member)
  moreover from r l have "r \<in> set (bucket_records l ops)" by (simp add: bucket_records_def)
  ultimately show "\<exists>l \<in> set (section_labels ops). r \<in> set (bucket_records l ops)" ..
qed

text \<open>
  C10: in a report that is written, every record of the pattern is listed in the section
  of the label of its type; the body of the section \<^verbatim>\<open>Operations replaced\<close> lists each of
  its records as \<^verbatim>\<open>old_op\<close>, the arrow and \<^verbatim>\<open>new_op\<close>, and the body of every other
  section, \<^verbatim>\<open>Operations replaced with values\<close> among them, lists each of its records as
  its \<^verbatim>\<open>op\<close> alone; every record has the keys that its bullet shows.
\<close>

theorem only_replaced_bucket_renders_pairs:
  assumes "create_hugo_post name ops dir w = (Inr (), w')"
  shows "list_all (\<lambda>r. list_ex (\<lambda>l. r \<in> set (bucket_records l ops)) (section_labels ops)) ops
         \<and> list_all (\<lambda>l. list_all (has_keys l) (bucket_records l ops)) (section_labels ops)
         \<and> written w' = written w @
             [(report_path dir name (unique_id w),
               Text (header name (today w) (github_url (extract_class_name name))
                     @ concat (map (\<lambda>l. section_text l
                                          (concat (map (bullet l) (bucket_records l ops))))
                                 (section_labels ops))))]"
proof -
  from create_hugo_post_written [OF assms] obtain by_type where
    "group_operations ops [] = Inr by_type"
    by blast
  then have listed:
    "list_all (\<lambda>r. list_ex (\<lambda>l. r \<in> set (bucket_records l ops)) (section_labels ops)) ops"
    by (rule grouped_records_listed)
  from create_hugo_post_bodies [OF assms] obtain bodies where
    bodies: "map (\<lambda>l. render_ops l (bucket_records l ops) []) (section_labels ops) = map Inr bodies"
    and log: "written w' = written w @
        [(report_path dir name (unique_id w),
          Text (header name (today w) (github_url (extract_class_name name))
                @ concat (map2 section_text (section_labels ops) bodies)))]"
    by blast
  from rendered_bodies_bullets [OF bodies]
  have eq: "bodies = map (\<lambda>l. concat (map (bullet l) (bucket_records l ops))) (section_labels ops)"
    and keys: "list_all (\<lambda>l. list_all (has_keys l) (bucket_records l ops)) (section_labels ops)"
    by simp_all
  from log have "written w' = written w @
      [(report_path dir name (unique_id w),
        Text (header name (today w) (github_url (extract_class_name name))
              @ concat (map (\<lambda>l. section_text l
                                   (concat (map (bullet l) (bucket_records l ops))))
                          (section_labels ops))))]"
    by (simp only: eq map2_map_same)
  with listed keys show ?thesis by blast
qed

theorem only_replaced_bucket_renders_pairs_witness:
  "fst (create_hugo_post ''P''
     [\<lparr>mtype = ''notifyOperationReplaced (with values)'', op = Some ''X'',
       old_op = None, new_op = None\<rparr>,
      \<lparr>mtype = ''notifyOperationReplaced (with op)'', op = None,
       old_op = Some ''A'', new_op = Some ''B''\<rparr>]
     ''website/content/patterns/'' (catalog_world [])) = Inr ()
   \<and> written (snd (create_hugo_post ''P''
     [\<lparr>mtype = ''notifyOperationReplaced (with values)'', op = Some ''X'',
       old_op = None, new_op = None\<rparr>,
      \<lparr>mtype = ''notifyOperationReplaced (with op)'', op = None,
       old_op = Some ''A'', new_op = Some ''B''\<rparr>]
     ''website/content/patterns/'' (catalog_world []))) =
     [(''website/content/patterns/p_0.md'',
       Text (header ''P'' ''2024-01-01'' (github_url ''P'')
             @ ''### Operations replaced with values\<newline>\<newline>- `X`\<newline>\<newline>''
             @ ''### Operations replaced\<newline>\<newline>- `A` '' @ arrow @ '' `B`\<newline>\<newline>''))]"
proof -
  let ?v = "\<lparr>mtype = ''notifyOperationReplaced (with values)'', op = Some ''X'',
             old_op = None, new_op = None\<rparr>"
  let ?p = "\<lparr>mtype = ''notifyOperationReplaced (with op)'', op = None,
             old_op = Some ''A'', new_op = Some ''B''\<rparr>"
  let ?ops = "[?v, ?p]"
  let ?post = "create_hugo_post ''P'' ?ops ''website/content/patterns/'' (catalog_world [])"
  have ok: "fst ?post = Inr ()" by code_simp
  then have run: "?post = (Inr (), snd ?post)" by (simp add: prod_eq_iff)
  have sections: "concat (map (\<lambda>l. section_text l (concat (map (bullet l) (bucket_records l ?ops))))
        (section_labels ?ops)) =
      ''### Operations replaced with values\<newline>\<newline>- `X`\<newline>\<newline>''
      @ ''### Operations replaced\<newline>\<newline>- `A` '' @ arrow @ '' `B`\<newline>\<newline>''"
    by code_simp
  have path: "report_path ''website/content/patterns/'' ''P'' 0 = ''website/content/patterns/p_0.md''"
    by code_simp
  have name: "extract_class_name ''P'' = ''P''" by code_simp
  have start: "unique_id (catalog_world []) = 0" "today (catalog_world []) = ''2024-01-01''"
    "written (catalog_world []) = []"
    by (simp_all add: catalog_world_def)
  from only_replaced_bucket_renders_pairs [OF run]
  have "written (snd ?post) = written (catalog_world []) @
      [(report_path ''website/content/patterns/'' ''P'' (unique_id (catalog_world [])),
        Text (header ''P'' (today (catalog_world [])) (github_url (extract_class_name ''P''))
              @ concat (map (\<lambda>l. section_text l (concat (map (bullet l) (bucket_records l ?ops))))
                          (section_labels ?ops))))]"
    by blast
  then have "written (snd ?post) =
      [(''website/content/patterns/p_0.md'',
        Text (header ''P'' ''2024-01-01'' (github_url ''P'')
              @ ''### Operations replaced with values\<newline>\<newline>- `X`\<newline>\<newline>''
              @ ''### Operations replaced\<newline>\<newline>- `A` '' @ arrow @ '' `B`\<newline>\<newline>''))]"
    by (simp only: sections path name start append_Nil)
  with ok show ?thesis by blast
qed

end
